theory Spec2Isabelle
  imports Main "HOL-Library.AList"
begin

section \<open>Data model\<close>

text \<open>
  The blockchain store of \<^verbatim>\<open>src/index.ts\<close> (class \<^verbatim>\<open>Blockchain\<close>). Blocks and
  headers come from the external library \<^verbatim>\<open>ethereumjs-block\<close>; only the header fields
  the store reads are kept (\<^verbatim>\<open>parentHash\<close>, \<^verbatim>\<open>number\<close>, \<^verbatim>\<open>difficulty\<close>), the other
  header fields are one opaque value. \<^verbatim>\<open>header.hash()\<close> is the Keccak hash of the encoded
  header; it is modelled as the injective constructor \<open>HashOf\<close> (a collision-free hash).
  \<open>RawHash\<close> stands for 32-byte values that are the hash of no header (the all-zero parent
  hash of a genesis header, or an arbitrary buffer passed by a caller).
  Numbers are \<^verbatim>\<open>BN\<close> big integers: \<open>int\<close>.
\<close>

datatype hash = RawHash nat | HashOf header
and header = Header (parentHash: hash) (number: int) (difficulty: nat) (rest: nat)

record block =
  header :: header
  transactions :: "nat list"
  uncleHeaders :: "header list"
  commonChainId :: nat

text \<open>The argument of \<^verbatim>\<open>_putBlockOrHeader\<close>: a \<^verbatim>\<open>Block\<close>, or a \<^verbatim>\<open>Block.Header\<close>
  (with the chain id of its \<^verbatim>\<open>_common\<close>).\<close>

datatype item = BlockItem block | HeaderItem header nat

text \<open>\<^verbatim>\<open>block.isGenesis()\<close> of ethereumjs-block: the header's number is zero.\<close>

definition isGenesis :: "block \<Rightarrow> bool" where
  "isGenesis b = (number (header b) = 0)"

type_synonym name = string

text \<open>
  Modelled from the spec: the key codec of \<^verbatim>\<open>./util\<close> (\<^verbatim>\<open>headerKey\<close>, \<^verbatim>\<open>bodyKey\<close>,
  \<^verbatim>\<open>tdKey\<close>, \<^verbatim>\<open>numberToHashKey\<close>, \<^verbatim>\<open>hashToNumberKey\<close>, \<^verbatim>\<open>headHeaderKey\<close>,
  \<^verbatim>\<open>headBlockKey\<close> and the string \<^verbatim>\<open>'heads'\<close>) is not under src/. The spec gives every
  family a tag byte of its own around the 8-byte number and the 32-byte hash, so the keys
  are modelled as the constructors of a datatype; the range failure of \<^verbatim>\<open>bufBE8\<close> for
  numbers from \<open>2 ^ 64\<close> on is outside the model. The stored values are kept decoded.
  The store is shared with Ethash (\<^verbatim>\<open>new Ethash(this.db)\<close>), which keeps the cache of an
  epoch under the number of the epoch: the key \<open>EthashKey\<close>, with the value \<open>VEthash\<close> (the
  cache, one opaque value).
\<close>

datatype key =
    HeaderKey int hash
  | BodyKey int hash
  | TdKey int hash
  | NumberToHashKey int
  | HashToNumberKey hash
  | HeadsKey
  | HeadHeaderKey
  | HeadBlockKey
  | EthashKey nat

datatype val =
    VHeader header
  | VBody "nat list" "header list"
  | VTd nat
  | VHash hash
  | VNumber int
  | VHeads "(name \<times> hash) list"
  | VNull
  | VEthash nat

datatype dbop = Put key val | Del key

datatype error =
    ChainMismatch
  | AlreadyHaveGenesis
  | InvalidBlock
  | InvalidPoW
  | NotFound
  | BodyMissing
  | NoHeadFound
  | UnknownBlockTag
  | TypeError
  | UserError nat

text \<open>
  The fields of the \<^verbatim>\<open>Blockchain\<close> object that the operations read and write.
  \<open>db\<close> is the key-value store, \<open>cache\<close> the write caches of the \<^verbatim>\<open>DBManager\<close>
  (\<^verbatim>\<open>dbManager._cache\<close>, one map here since the key families are disjoint).
  \<^verbatim>\<open>_heads\<close> is a JavaScript object from names to hashes (created as \<^verbatim>\<open>{}\<close>); its
  own entries are kept as an association list in key order. \<^verbatim>\<open>_staleHeads\<close> is undefined or an array of names, \<^verbatim>\<open>_staleHeadBlock\<close>
  undefined or true.
\<close>

record state =
  db :: "key \<rightharpoonup> val"
  cache :: "key \<rightharpoonup> val"
  heads :: "(name \<times> hash) list"
  headHeader :: "hash option"
  headBlock :: "hash option"
  genesis :: "hash option"
  staleHeads :: "name list option"
  staleHeadBlock :: bool
  chainId :: nat
  validate :: bool

text \<open>
  The external collaborators of a put, parameters of the model.
  \<^verbatim>\<open>block.validate(blockchain, cb)\<close> of ethereumjs-block reads the chain it is given and
  answers. \<^verbatim>\<open>ethash.verifyPOW(block, cb)\<close> of ethashjs works on the store of the chain
  (\<^verbatim>\<open>this.ethash = new Ethash(this.db)\<close>): before it answers it loads the cache of the
  epoch of the block, and puts it in the store when it does not find it there.
  \<open>ethashLoadEpoc\<close> is that write: given the block and the entries Ethash finds in the
  store, the epoch and the cache it puts there, or nothing. \<open>ethashVerifyPOW\<close> is the answer.
\<close>

record collab =
  blockValidate :: "state \<Rightarrow> block \<Rightarrow> bool"
  ethashVerifyPOW :: "block \<Rightarrow> bool"
  ethashLoadEpoc :: "block \<Rightarrow> (nat \<rightharpoonup> nat) \<Rightarrow> (nat \<times> nat) option"

section \<open>DBManager\<close>

text \<open>
  Modelled from the spec: the class \<^verbatim>\<open>DBManager\<close> of \<^verbatim>\<open>./dbManager\<close> is not under
  src/. The spec (4.2, 4.3): a read consults the write cache of its family and falls
  through to the key-value store on a miss; \<^verbatim>\<open>batch\<close> writes a sequence of put and del
  operations atomically; \<^verbatim>\<open>getBlock\<close> takes a hash or a number, resolves the other one
  through the lookup tables, composes header and body, and answers BodyMissing when the
  body is missing and the block is not genesis. The spec gives \<^verbatim>\<open>getBlock\<close> a hash or a
  number; a tag that is neither (a JavaScript value of another type, \<open>TagOther\<close>) names
  no block: the call fails, with the error \<open>UnknownBlockTag\<close>.
\<close>

definition dbGet :: "state \<Rightarrow> key \<Rightarrow> val option" where
  "dbGet s k = (case cache s k of Some v \<Rightarrow> Some v | None \<Rightarrow> db s k)"

definition dbm_hashToNumber :: "state \<Rightarrow> hash \<Rightarrow> int option" where
  "dbm_hashToNumber s h =
     (case dbGet s (HashToNumberKey h) of Some (VNumber n) \<Rightarrow> Some n | _ \<Rightarrow> None)"

definition dbm_numberToHash :: "state \<Rightarrow> int \<Rightarrow> hash option" where
  "dbm_numberToHash s n =
     (case dbGet s (NumberToHashKey n) of Some (VHash h) \<Rightarrow> Some h | _ \<Rightarrow> None)"

definition dbm_getHeader :: "state \<Rightarrow> hash \<Rightarrow> int \<Rightarrow> header option" where
  "dbm_getHeader s h n =
     (case dbGet s (HeaderKey n h) of Some (VHeader hdr) \<Rightarrow> Some hdr | _ \<Rightarrow> None)"

definition dbm_getBody :: "state \<Rightarrow> hash \<Rightarrow> int \<Rightarrow> (nat list \<times> header list) option" where
  "dbm_getBody s h n =
     (case dbGet s (BodyKey n h) of Some (VBody txs us) \<Rightarrow> Some (txs, us) | _ \<Rightarrow> None)"

definition dbm_getTd :: "state \<Rightarrow> hash \<Rightarrow> int \<Rightarrow> nat option" where
  "dbm_getTd s h n =
     (case dbGet s (TdKey n h) of Some (VTd t) \<Rightarrow> Some t | _ \<Rightarrow> None)"

datatype blockTag = TagHash hash | TagNumber int | TagOther

definition dbm_getBlock :: "state \<Rightarrow> blockTag \<Rightarrow> error + block" where
  "dbm_getBlock s tag =
     (if tag = TagOther then Inl UnknownBlockTag else
      case (case tag of
              TagHash h \<Rightarrow> (case dbm_hashToNumber s h of None \<Rightarrow> None | Some n \<Rightarrow> Some (h, n))
            | TagNumber n \<Rightarrow> (case dbm_numberToHash s n of None \<Rightarrow> None | Some h \<Rightarrow> Some (h, n))
            | TagOther \<Rightarrow> None) of
        None \<Rightarrow> Inl NotFound
      | Some (h, n) \<Rightarrow>
          (case dbm_getHeader s h n of
             None \<Rightarrow> Inl NotFound
           | Some hdr \<Rightarrow>
               (case dbm_getBody s h n of
                  Some (txs, us) \<Rightarrow>
                    Inr \<lparr>header = hdr, transactions = txs, uncleHeaders = us,
                         commonChainId = chainId s\<rparr>
                | None \<Rightarrow>
                    if number hdr = 0
                    then Inr \<lparr>header = hdr, transactions = [], uncleHeaders = [],
                              commonChainId = chainId s\<rparr>
                    else Inl BodyMissing)))"

fun applyOp :: "(key \<rightharpoonup> val) \<Rightarrow> dbop \<Rightarrow> (key \<rightharpoonup> val)" where
  "applyOp m (Put k v) = m(k \<mapsto> v)"
| "applyOp m (Del k) = m(k := None)"

definition dbm_batch :: "dbop list \<Rightarrow> state \<Rightarrow> state" where
  "dbm_batch ops s = s\<lparr>db := foldl applyOp (db s) ops\<rparr>"

section \<open>Lookups of the Blockchain class\<close>

text \<open>\<^verbatim>\<open>_lookupByHashNumber\<close>: when the number is left out, it is looked up from the hash
  first; its failure is the failure of the whole read.\<close>

definition lookupByHashNumber :: "state \<Rightarrow> hash \<Rightarrow> int option \<Rightarrow> int option" where
  "lookupByHashNumber s h numberOpt =
     (case numberOpt of None \<Rightarrow> dbm_hashToNumber s h | Some n \<Rightarrow> Some n)"

definition getHeader :: "state \<Rightarrow> hash \<Rightarrow> int option \<Rightarrow> header option" where
  "getHeader s h numberOpt =
     (case lookupByHashNumber s h numberOpt of None \<Rightarrow> None | Some n \<Rightarrow> dbm_getHeader s h n)"

definition getTd :: "state \<Rightarrow> hash \<Rightarrow> int option \<Rightarrow> nat option" where
  "getTd s h numberOpt =
     (case lookupByHashNumber s h numberOpt of None \<Rightarrow> None | Some n \<Rightarrow> dbm_getTd s h n)"

definition getCanonicalHeader :: "state \<Rightarrow> int \<Rightarrow> header option" where
  "getCanonicalHeader s n =
     (case dbm_numberToHash s n of None \<Rightarrow> None | Some h \<Rightarrow> getHeader s h (Some n))"

definition saveHeadOps :: "state \<Rightarrow> dbop list" where
  "saveHeadOps s =
     [Put HeadsKey (VHeads (heads s)),
      Put HeadHeaderKey (case headHeader s of None \<Rightarrow> VNull | Some h \<Rightarrow> VHash h),
      Put HeadBlockKey (case headBlock s of None \<Rightarrow> VNull | Some h \<Rightarrow> VHash h)]"

section \<open>getHead\<close>

text \<open>
  The lookup \<^verbatim>\<open>this._heads[name]\<close>. \<^verbatim>\<open>_heads\<close> is a plain object (\<^verbatim>\<open>this._heads = {}\<close>,
  or what was stored under \<^verbatim>\<open>'heads'\<close>), so the lookup of a name with no entry follows
  the prototype chain: for the names of the properties of \<^verbatim>\<open>Object.prototype\<close> it yields
  the inherited function or object, which is truthy and is no \<^verbatim>\<open>Buffer\<close>; for every
  other name it yields \<^verbatim>\<open>undefined\<close>. (An assignment to the name \<^verbatim>\<open>__proto__\<close>, which
  would replace the prototype, is outside the model.)
\<close>

definition objectPrototypeNames :: "name list" where
  "objectPrototypeNames =
     [''constructor'', ''__defineGetter__'', ''__defineSetter__'', ''hasOwnProperty'',
      ''__lookupGetter__'', ''__lookupSetter__'', ''isPrototypeOf'',
      ''propertyIsEnumerable'', ''toString'', ''valueOf'', ''__proto__'',
      ''toLocaleString'']"

definition headsLookup :: "state \<Rightarrow> name \<Rightarrow> blockTag option" where
  "headsLookup s name =
     (case map_of (heads s) name of
        Some h \<Rightarrow> Some (TagHash h)
      | None \<Rightarrow> if name \<in> set objectPrototypeNames then Some TagOther else None)"

text \<open>\<^verbatim>\<open>getHead(name, cb)\<close>; the name is optional and defaults to \<^verbatim>\<open>'vm'\<close>:
  \<^verbatim>\<open>this._heads[name] || this._headBlock\<close> is handed to \<^verbatim>\<open>getBlock\<close>.\<close>

definition getHead :: "name option \<Rightarrow> state \<Rightarrow> error + block" where
  "getHead nameOpt s =
     (let name = (case nameOpt of None \<Rightarrow> ''vm'' | Some n \<Rightarrow> n);
          hash = (case headsLookup s name of
                    Some t \<Rightarrow> Some t
                  | None \<Rightarrow> map_option TagHash (headBlock s))
      in case hash of
           None \<Rightarrow> Inl NoHeadFound
         | Some t \<Rightarrow> dbm_getBlock s t)"

section \<open>The put path\<close>

text \<open>
  Wherever the class pushes an operation of a key family on a batch, it applies the same
  operation to the write cache of the family (\<^verbatim>\<open>cache.set\<close> after a put,
  \<^verbatim>\<open>cache.del\<close> after a del). \<open>cached new s\<close> is the state once the operations
  \<open>new\<close> have been applied to the caches.
\<close>

definition cached :: "dbop list \<Rightarrow> state \<Rightarrow> state" where
  "cached new s = s\<lparr>cache := foldl applyOp (cache s) new\<rparr>"

text \<open>
  The three recursive walks of the class (\<^verbatim>\<open>_deleteStaleAssignments\<close>,
  \<^verbatim>\<open>_rebuildCanonical\<close>, \<^verbatim>\<open>_delChild\<close>) are each written as the body of one call,
  which either hands its outcome to the callback (the error of an exception or of a failed
  read, or none; the operations collected; the state) or calls itself again, and the
  recursion over that body. A walk that never ends is the value \<open>None\<close>.
\<close>

datatype 'a walk = Return "error option" "dbop list" state | Continue 'a "dbop list" state

text \<open>
  \<^verbatim>\<open>_deleteStaleAssignments(number, headHash, ops, cb)\<close>: the walk goes on while a
  canonical assignment exists. Every iterator head at the stale hash is reset to
  \<open>headHash\<close>, then \<^verbatim>\<open>_headBlock\<close> if it is the stale hash;
  \<^verbatim>\<open>this._headBlock.equals\<close> on an unset \<^verbatim>\<open>_headBlock\<close> throws.
\<close>

definition resetIteratorHeads :: "hash \<Rightarrow> hash \<Rightarrow> state \<Rightarrow> state" where
  "resetIteratorHeads hash headHash s =
     s\<lparr>heads := map (\<lambda>(name, h). if h = hash then (name, headHash) else (name, h)) (heads s)\<rparr>"

definition resetHeadBlock :: "hash \<Rightarrow> hash \<Rightarrow> state \<Rightarrow> state" where
  "resetHeadBlock hash headHash s =
     (if headBlock s = Some hash then s\<lparr>headBlock := Some headHash\<rparr> else s)"

definition deleteStaleStep :: "int \<Rightarrow> hash \<Rightarrow> dbop list \<Rightarrow> state \<Rightarrow> int walk" where
  "deleteStaleStep n headHash ops s =
     (case dbm_numberToHash s n of
        None \<Rightarrow> Return None ops s
      | Some hash \<Rightarrow>
          (let ops1 = ops @ [Del (NumberToHashKey n)];
               s1 = resetIteratorHeads hash headHash (cached [Del (NumberToHashKey n)] s)
           in if headBlock s1 = None then Return (Some TypeError) ops1 s1
              else Continue (n + 1) ops1 (resetHeadBlock hash headHash s1)))"

partial_function (option) deleteStaleAssignments ::
  "int \<Rightarrow> hash \<Rightarrow> dbop list \<Rightarrow> state \<Rightarrow> (error option \<times> dbop list \<times> state) option" where
  "deleteStaleAssignments n headHash ops s =
     (case deleteStaleStep n headHash ops s of
        Return e ops1 s1 \<Rightarrow> Some (e, ops1, s1)
      | Continue n1 ops1 s1 \<Rightarrow> deleteStaleAssignments n1 headHash ops1 s1)"

text \<open>\<^verbatim>\<open>saveLookups(hash, number)\<close> inside \<^verbatim>\<open>_rebuildCanonical\<close>: the two operations
  it pushes.\<close>

definition lookupOps :: "hash \<Rightarrow> int \<Rightarrow> dbop list" where
  "lookupOps hash n =
     [Put (NumberToHashKey n) (VHash hash), Put (HashToNumberKey hash) (VNumber n)]"

text \<open>The names pushed on \<^verbatim>\<open>_staleHeads\<close> at one step of the walk: the heads whose hash
  is the stale hash, in key order; the array is created at the first push.\<close>

definition flagStaleHeads :: "hash option \<Rightarrow> state \<Rightarrow> state" where
  "flagStaleHeads staleHash s =
     (case staleHash of
        None \<Rightarrow> s
      | Some sh \<Rightarrow>
          (let flagged = map fst (filter (\<lambda>(name, h). h = sh) (heads s))
           in if flagged = [] then s
              else s\<lparr>staleHeads :=
                       Some ((case staleHeads s of None \<Rightarrow> [] | Some l \<Rightarrow> l) @ flagged)\<rparr>))"

definition flagStaleHeadBlock :: "hash option \<Rightarrow> state \<Rightarrow> state" where
  "flagStaleHeadBlock staleHash s =
     (if staleHash \<noteq> None \<and> headBlock s = staleHash then s\<lparr>staleHeadBlock := True\<rparr> else s)"

text \<open>The branch of \<^verbatim>\<open>_rebuildCanonical\<close> that ends the walk: the flagged heads, and
  \<^verbatim>\<open>_headBlock\<close> if it is flagged, are set to the hash of the header of this call, and
  the flags are deleted.\<close>

definition resetStaleHeads :: "hash \<Rightarrow> state \<Rightarrow> state" where
  "resetStaleHeads hash s =
     s\<lparr>heads := foldl (\<lambda>hs name. AList.update name hash hs) (heads s)
                  (case staleHeads s of None \<Rightarrow> [] | Some l \<Rightarrow> l),
       staleHeads := None,
       headBlock := (if staleHeadBlock s then Some hash else headBlock s),
       staleHeadBlock := False\<rparr>"

text \<open>\<^verbatim>\<open>_rebuildCanonical(header, ops, cb)\<close>.\<close>

definition rebuildStep :: "header \<Rightarrow> dbop list \<Rightarrow> state \<Rightarrow> header walk" where
  "rebuildStep hdr ops s =
     (let hash = HashOf hdr; n = number hdr;
          ops1 = ops @ lookupOps hash n;
          s1 = cached (lookupOps hash n) s;
          staleHash = dbm_numberToHash s n;
          s2 = flagStaleHeads staleHash s1;
          s3 = flagStaleHeadBlock staleHash s2
      in if n = 0 then Return None ops1 s1
         else if staleHash \<noteq> Some hash
         then
           (if staleHash \<noteq> None \<and> headBlock s2 = None then Return (Some TypeError) ops1 s2
            else
              (case getHeader s3 (parentHash hdr) (Some (n - 1)) of
                 None \<Rightarrow> Return (Some NotFound) ops1 (s3\<lparr>staleHeads := None\<rparr>)
               | Some parent \<Rightarrow> Continue parent ops1 s3))
         else Return None ops (resetStaleHeads hash s))"

partial_function (option) rebuildCanonical ::
  "header \<Rightarrow> dbop list \<Rightarrow> state \<Rightarrow> (error option \<times> dbop list \<times> state) option" where
  "rebuildCanonical hdr ops s =
     (case rebuildStep hdr ops s of
        Return e ops1 s1 \<Rightarrow> Some (e, ops1, s1)
      | Continue parent ops1 s1 \<Rightarrow> rebuildCanonical parent ops1 s1)"

text \<open>The steps of \<^verbatim>\<open>_putBlockOrHeader\<close>, in the order of its \<^verbatim>\<open>async.series\<close>.\<close>

definition itemBlock :: "item \<Rightarrow> block" where
  "itemBlock it =
     (case it of
        BlockItem b \<Rightarrow> b
      | HeaderItem hdr c \<Rightarrow>
          \<lparr>header = hdr, transactions = [], uncleHeaders = [], commonChainId = c\<rparr>)"

definition isHeader :: "item \<Rightarrow> bool" where
  "isHeader it = (case it of BlockItem b \<Rightarrow> False | HeaderItem hdr c \<Rightarrow> True)"

definition verify :: "collab \<Rightarrow> block \<Rightarrow> bool \<Rightarrow> state \<Rightarrow> error option" where
  "verify E blk isGen s =
     (if \<not> validate s then None
      else if \<not> isGen \<and> isGenesis blk then Some AlreadyHaveGenesis
      else if blockValidate E s blk then None else Some InvalidBlock)"

text \<open>\<^verbatim>\<open>verifyPOW\<close>: without \<^verbatim>\<open>validate\<close> there is no Ethash and nothing is done.
  Otherwise \<^verbatim>\<open>ethash.verifyPOW\<close> is called: \<open>ethashLoaded\<close> is the state once Ethash has
  loaded the epoch of the block (the store with the cache entry it has put there, if
  any), and the answer decides the error.\<close>

definition ethashEntries :: "state \<Rightarrow> (nat \<rightharpoonup> nat)" where
  "ethashEntries s = (\<lambda>e. case db s (EthashKey e) of Some (VEthash c) \<Rightarrow> Some c | _ \<Rightarrow> None)"

definition ethashLoaded :: "collab \<Rightarrow> block \<Rightarrow> state \<Rightarrow> state" where
  "ethashLoaded E blk s =
     (case ethashLoadEpoc E blk (ethashEntries s) of
        None \<Rightarrow> s
      | Some (e, c) \<Rightarrow> s\<lparr>db := (db s)(EthashKey e \<mapsto> VEthash c)\<rparr>)"

definition verifyPOW :: "collab \<Rightarrow> block \<Rightarrow> state \<Rightarrow> error option \<times> state" where
  "verifyPOW E blk s =
     (if \<not> validate s then (None, s)
      else (if ethashVerifyPOW E blk then None else Some InvalidPoW, ethashLoaded E blk s))"

text \<open>\<^verbatim>\<open>getCurrentTd\<close>: the pair \<^verbatim>\<open>(currentTd.header, currentTd.block)\<close>; a failure of
  either read fails the step.\<close>

definition getCurrentTd :: "bool \<Rightarrow> state \<Rightarrow> (nat \<times> nat) option" where
  "getCurrentTd isGen s =
     (if isGen then Some (0, 0)
      else
        (case (case headHeader s of None \<Rightarrow> None | Some h \<Rightarrow> getTd s h None) of
           None \<Rightarrow> None
         | Some th \<Rightarrow>
             (case (case headBlock s of None \<Rightarrow> None | Some h \<Rightarrow> getTd s h None) of
                None \<Rightarrow> None
              | Some tb \<Rightarrow> Some (th, tb))))"

text \<open>\<^verbatim>\<open>getBlockTd\<close>: the total difficulty of the new block.\<close>

definition getBlockTd :: "bool \<Rightarrow> header \<Rightarrow> state \<Rightarrow> nat option" where
  "getBlockTd isGen hdr s =
     (if isGen then Some (difficulty hdr)
      else
        (case getTd s (parentHash hdr) (Some (number hdr - 1)) of
           None \<Rightarrow> None
         | Some parentTd \<Rightarrow> Some (difficulty hdr + parentTd)))"

text \<open>
  \<^verbatim>\<open>rebuildInfo\<close>. \<open>blockOps\<close> are the operations for the total difficulty, the header
  and, if the block is put as genesis or has transactions or uncles, the body.
  \<open>acceptHead\<close> is what the winning branch assigns before its walks:
  \<^verbatim>\<open>_headHeader\<close>, \<^verbatim>\<open>_headBlock\<close> unless the item is a header, \<^verbatim>\<open>_genesis\<close> if the
  block is genesis. The two tasks of the \<^verbatim>\<open>async.parallel\<close> are run one after the
  other, in the order they are started: \<^verbatim>\<open>_deleteStaleAssignments\<close> from
  \<open>number + 1\<close> upward, then \<^verbatim>\<open>_rebuildCanonical\<close>.
\<close>

definition blockOps :: "item \<Rightarrow> bool \<Rightarrow> nat \<Rightarrow> dbop list" where
  "blockOps it isGen td =
     (let blk = itemBlock it; hdr = header blk; hash = HashOf hdr; n = number hdr
      in [Put (TdKey n hash) (VTd td), Put (HeaderKey n hash) (VHeader hdr)]
         @ (if isGen \<or> transactions blk \<noteq> [] \<or> uncleHeaders blk \<noteq> []
            then [Put (BodyKey n hash) (VBody (transactions blk) (uncleHeaders blk))]
            else []))"

definition acceptHead :: "item \<Rightarrow> state \<Rightarrow> state" where
  "acceptHead it s =
     (let hash = HashOf (header (itemBlock it)) in
      s\<lparr>headHeader := Some hash,
        headBlock := (if \<not> isHeader it then Some hash else headBlock s),
        genesis := (if isGenesis (itemBlock it) then Some hash else genesis s)\<rparr>)"

definition acceptHeadBlock :: "item \<Rightarrow> nat \<Rightarrow> nat \<Rightarrow> state \<Rightarrow> state" where
  "acceptHeadBlock it td currentBlockTd s =
     (if td > currentBlockTd \<and> \<not> isHeader it
      then s\<lparr>headBlock := Some (HashOf (header (itemBlock it)))\<rparr> else s)"

definition rebuildInfo ::
  "item \<Rightarrow> bool \<Rightarrow> nat \<Rightarrow> nat \<times> nat \<Rightarrow> state \<Rightarrow> (error option \<times> dbop list \<times> state) option" where
  "rebuildInfo it isGen td currentTd s =
     (let blk = itemBlock it; hdr = header blk; hash = HashOf hdr; n = number hdr;
          ops1 = blockOps it isGen td;
          s1 = cached ops1 s
      in if isGenesis blk \<or> td > fst currentTd
         then
           (case deleteStaleAssignments (n + 1) hash ops1 (acceptHead it s1) of
              None \<Rightarrow> None
            | Some (Some e, ops2, s2) \<Rightarrow> Some (Some e, ops2, s2)
            | Some (None, ops2, s2) \<Rightarrow> rebuildCanonical hdr ops2 s2)
         else
           Some (None, ops1 @ [Put (HashToNumberKey hash) (VNumber n)],
                 cached [Put (HashToNumberKey hash) (VNumber n)]
                   (acceptHeadBlock it td (snd currentTd) s1)))"

text \<open>\<^verbatim>\<open>_putBlockOrHeader(item, cb, isGenesis)\<close>: the error handed to the callback (or
  none) and the state it leaves. \<open>putAccepted\<close> is the rest of its \<^verbatim>\<open>async.series\<close> once
  the two checks have passed: \<^verbatim>\<open>getCurrentTd\<close>, \<^verbatim>\<open>getBlockTd\<close>, \<^verbatim>\<open>rebuildInfo\<close> and
  the batch.\<close>

definition putAccepted :: "item \<Rightarrow> bool \<Rightarrow> state \<Rightarrow> (error option \<times> state) option" where
  "putAccepted it isGen s =
     (case getCurrentTd isGen s of
        None \<Rightarrow> Some (Some NotFound, s)
      | Some currentTd \<Rightarrow>
     (case getBlockTd isGen (header (itemBlock it)) s of
        None \<Rightarrow> Some (Some NotFound, s)
      | Some td \<Rightarrow>
     (case rebuildInfo it isGen td currentTd s of
        None \<Rightarrow> None
      | Some (Some e, ops, s1) \<Rightarrow> Some (Some e, s1)
      | Some (None, ops, s1) \<Rightarrow> Some (None, dbm_batch (ops @ saveHeadOps s1) s1))))"

definition putBlockOrHeader ::
  "collab \<Rightarrow> item \<Rightarrow> bool \<Rightarrow> state \<Rightarrow> (error option \<times> state) option" where
  "putBlockOrHeader E it isGen s =
     (let blk = itemBlock it in
      if commonChainId blk \<noteq> chainId s then Some (Some ChainMismatch, s)
      else
        (case verify E blk isGen s of
           Some e \<Rightarrow> Some (Some e, s)
         | None \<Rightarrow>
        (case verifyPOW E blk s of
           (Some e, s0) \<Rightarrow> Some (Some e, s0)
         | (None, s0) \<Rightarrow> putAccepted it isGen s0)))"

text \<open>\<^verbatim>\<open>putBlock\<close>, \<^verbatim>\<open>putHeader\<close> and \<^verbatim>\<open>putGenesis\<close> run it under the put semaphore.\<close>

definition putBlock :: "collab \<Rightarrow> block \<Rightarrow> bool \<Rightarrow> state \<Rightarrow> (error option \<times> state) option" where
  "putBlock E b isGen s = putBlockOrHeader E (BlockItem b) isGen s"

definition putHeader :: "collab \<Rightarrow> header \<Rightarrow> nat \<Rightarrow> state \<Rightarrow> (error option \<times> state) option" where
  "putHeader E hdr c s = putBlockOrHeader E (HeaderItem hdr c) False s"


section \<open>The delete path\<close>

text \<open>\<^verbatim>\<open>_delChild(hash, number, headHash, ops, cb)\<close>; \<open>headHash\<close> is a hash or null.
  With a \<open>headHash\<close>, \<^verbatim>\<open>_headHeader\<close> and \<^verbatim>\<open>_headBlock\<close> move to it when they are
  the deleted hash (\<^verbatim>\<open>hash.equals\<close> of an unset field throws), and the walk goes on
  with the canonical child.\<close>

definition blockDelOps :: "hash \<Rightarrow> int \<Rightarrow> dbop list" where
  "blockDelOps hash n =
     [Del (HeaderKey n hash), Del (BodyKey n hash), Del (HashToNumberKey hash),
      Del (TdKey n hash)]"

definition resetHeadHeader :: "hash \<Rightarrow> hash \<Rightarrow> state \<Rightarrow> state" where
  "resetHeadHeader hash headHash s =
     (if headHeader s = Some hash then s\<lparr>headHeader := Some headHash\<rparr> else s)"

definition delChildStep ::
  "hash \<Rightarrow> int \<Rightarrow> hash option \<Rightarrow> dbop list \<Rightarrow> state \<Rightarrow> (hash \<times> int) walk" where
  "delChildStep hash n headHash ops s =
     (let ops1 = ops @ blockDelOps hash n;
          s1 = cached (blockDelOps hash n) s
      in case headHash of
           None \<Rightarrow> Return None ops1 s1
         | Some hh \<Rightarrow>
             (if headHeader s1 = None then Return (Some TypeError) ops1 s1
              else if headBlock s1 = None
              then Return (Some TypeError) ops1 (resetHeadHeader hash hh s1)
              else
                (let s3 = resetHeadBlock hash hh (resetHeadHeader hash hh s1) in
                 case getCanonicalHeader s3 (n + 1) of
                   None \<Rightarrow> Return None ops1 s3
                 | Some childHeader \<Rightarrow>
                     Continue (HashOf childHeader, number childHeader) ops1 s3)))"

partial_function (option) delChild ::
  "hash \<Rightarrow> int \<Rightarrow> hash option \<Rightarrow> dbop list \<Rightarrow> state \<Rightarrow> (error option \<times> dbop list \<times> state) option"
  where
  "delChild hash n headHash ops s =
     (case delChildStep hash n headHash ops s of
        Return e ops1 s1 \<Rightarrow> Some (e, ops1, s1)
      | Continue child ops1 s1 \<Rightarrow> delChild (fst child) (snd child) headHash ops1 s1)"

text \<open>\<^verbatim>\<open>_delBlock(blockHash, cb)\<close>, which \<^verbatim>\<open>delBlock\<close> runs under the put semaphore.\<close>

definition delBlock :: "hash \<Rightarrow> state \<Rightarrow> (error option \<times> state) option" where
  "delBlock blockHash s =
     (case getHeader s blockHash None of
        None \<Rightarrow> Some (Some NotFound, s)
      | Some blockHeader \<Rightarrow>
          (let blockNumber = number blockHeader;
               parent = parentHash blockHeader;
               inCanonical = (dbm_numberToHash s blockNumber = Some blockHash)
           in case delChild blockHash blockNumber (if inCanonical then Some parent else None) [] s of
                None \<Rightarrow> None
              | Some (Some e, ops, s1) \<Rightarrow> Some (Some e, s1)
              | Some (None, ops, s1) \<Rightarrow>
                  (if inCanonical
                   then (case deleteStaleAssignments blockNumber parent ops s1 of
                           None \<Rightarrow> None
                         | Some (Some e, ops2, s2) \<Rightarrow> Some (Some e, s2)
                         | Some (None, ops2, s2) \<Rightarrow> Some (None, dbm_batch ops2 s2))
                   else Some (None, dbm_batch ops s1))))"

section \<open>The iterator\<close>

text \<open>
  The loop of \<^verbatim>\<open>_iterator\<close> (\<^verbatim>\<open>async.whilst\<close> over \<^verbatim>\<open>run\<close>). \<open>func\<close> is the
  caller's \<^verbatim>\<open>onBlock\<close>: it gets the block and the reorg flag and answers with an error or
  none. The calls made to it are collected in order. The loop ends at the first error; a
  not-found error ends it normally.
\<close>

partial_function (option) iteratorRun ::
  "(block \<Rightarrow> bool \<Rightarrow> error option) \<Rightarrow> name \<Rightarrow> int \<Rightarrow> block option \<Rightarrow> (block \<times> bool) list \<Rightarrow> state
     \<Rightarrow> (error option \<times> (block \<times> bool) list \<times> state) option" where
  "iteratorRun func name blockNumber lastBlock calls s =
     (case dbm_getBlock s (TagNumber blockNumber) of
        Inl err \<Rightarrow> Some ((if err = NotFound then None else Some err), calls, s)
      | Inr blk \<Rightarrow>
          (let s1 = s\<lparr>heads := AList.update name (HashOf (header blk)) (heads s)\<rparr>;
               reorg = (case lastBlock of
                          None \<Rightarrow> False
                        | Some lb \<Rightarrow> HashOf (header lb) = parentHash (header blk));
               calls1 = calls @ [(blk, reorg)]
           in case func blk reorg of
                Some err \<Rightarrow> Some ((if err = NotFound then None else Some err), calls1, s1)
              | None \<Rightarrow> iteratorRun func name (blockNumber + 1) (Some blk) calls1 s1))"

text \<open>\<^verbatim>\<open>_iterator(name, func, cb)\<close>: the error (or none), the calls made to \<open>func\<close>
  and the final state; the heads are saved when the loop ended without error. The start is
  \<^verbatim>\<open>this._heads[name] || this._genesis\<close>; a value inherited from \<^verbatim>\<open>Object.prototype\<close>
  is no \<^verbatim>\<open>Buffer\<close>, and the key of its hash-to-number lookup cannot be built.\<close>

definition iterator ::
  "name \<Rightarrow> (block \<Rightarrow> bool \<Rightarrow> error option) \<Rightarrow> state
     \<Rightarrow> (error option \<times> (block \<times> bool) list \<times> state) option" where
  "iterator name func s =
     (case (case headsLookup s name of
              Some t \<Rightarrow> Some t
            | None \<Rightarrow> map_option TagHash (genesis s)) of
        None \<Rightarrow> Some (None, [], s)
      | Some (TagHash blockHash) \<Rightarrow>
          (case dbm_hashToNumber s blockHash of
             None \<Rightarrow> Some (Some NotFound, [], s)
           | Some n \<Rightarrow>
               (case iteratorRun func name (n + 1) None [] s of
                  None \<Rightarrow> None
                | Some (Some err, calls, s1) \<Rightarrow> Some (Some err, calls, s1)
                | Some (None, calls, s1) \<Rightarrow> Some (None, calls, dbm_batch (saveHeadOps s1) s1)))
      | Some _ \<Rightarrow> Some (Some TypeError, [], s))"

section \<open>Construction and initialisation\<close>

text \<open>The fields as the constructor leaves them, over a store \<open>d\<close>, and \<^verbatim>\<open>_init\<close>.
  \<open>genesisBlock\<close> is the block that \<^verbatim>\<open>_setCanonicalGenesisBlock\<close> builds from the chain
  parameters (\<^verbatim>\<open>new Block\<close>, \<^verbatim>\<open>setGenesisParams\<close>).\<close>

definition newBlockchain :: "(key \<rightharpoonup> val) \<Rightarrow> nat \<Rightarrow> bool \<Rightarrow> state" where
  "newBlockchain d c v =
     \<lparr>db = d, cache = Map.empty, heads = [], headHeader = None, headBlock = None,
      genesis = None, staleHeads = None, staleHeadBlock = False, chainId = c, validate = v\<rparr>"

definition init :: "collab \<Rightarrow> block \<Rightarrow> state \<Rightarrow> (error option \<times> state) option" where
  "init E genesisBlock s =
     (case dbm_numberToHash s 0 of
        Some genesisHash \<Rightarrow>
          Some (None,
            s\<lparr>genesis := Some genesisHash,
              heads := (case db s HeadsKey of Some (VHeads hs) \<Rightarrow> hs | _ \<Rightarrow> []),
              headHeader := (case db s HeadHeaderKey of
                               Some (VHash h) \<Rightarrow> Some h | _ \<Rightarrow> Some genesisHash),
              headBlock := (case db s HeadBlockKey of
                              Some (VHash h) \<Rightarrow> Some h | _ \<Rightarrow> Some genesisHash)\<rparr>)
      | None \<Rightarrow>
          (case putBlockOrHeader E (BlockItem genesisBlock) True s of
             None \<Rightarrow> None
           | Some (Some e, s1) \<Rightarrow> Some (Some e, s1)
           | Some (None, s1) \<Rightarrow>
               Some (None, s1\<lparr>heads := [], headHeader := genesis s1, headBlock := genesis s1\<rparr>)))"

section \<open>Definitions for the proofs and example chains\<close>

text \<open>The operations the two walks add to the batch. \<open>delOp lo\<close>: the deletion of a
  canonical assignment at a number from \<open>lo\<close> upward (\<^verbatim>\<open>_deleteStaleAssignments\<close>).
  \<open>saveOp R\<close>: one of the two lookups \<^verbatim>\<open>saveLookups\<close> writes for a header that
  satisfies \<open>R\<close> (\<^verbatim>\<open>_rebuildCanonical\<close>).\<close>

definition delOp :: "int \<Rightarrow> dbop \<Rightarrow> bool" where
  "delOp lo op = (\<exists>m \<ge> lo. op = Del (NumberToHashKey m))"

definition saveOp :: "(header \<Rightarrow> bool) \<Rightarrow> dbop \<Rightarrow> bool" where
  "saveOp R op =
     (\<exists>w. R w \<and> (op = Put (NumberToHashKey (number w)) (VHash (HashOf w))
                 \<or> op = Put (HashToNumberKey (HashOf w)) (VNumber (number w))))"

text \<open>\<open>mirrored P s ops s' ops'\<close>: a walk from the state \<open>s\<close> with the batch \<open>ops\<close> to the
  state \<open>s'\<close> with the batch \<open>ops'\<close> has appended operations that satisfy \<open>P\<close>, has applied
  the same operations to the caches, and has written neither to the store nor to
  \<^verbatim>\<open>_headHeader\<close>, \<^verbatim>\<open>_genesis\<close>, the chain id or \<^verbatim>\<open>validate\<close>.\<close>

definition mirrored :: "(dbop \<Rightarrow> bool) \<Rightarrow> state \<Rightarrow> dbop list \<Rightarrow> state \<Rightarrow> dbop list \<Rightarrow> bool" where
  "mirrored P s ops s' ops' =
     (\<exists>ext. ops' = ops @ ext \<and> cache s' = foldl applyOp (cache s) ext \<and> list_all P ext
        \<and> db s' = db s \<and> headHeader s' = headHeader s \<and> genesis s' = genesis s
        \<and> chainId s' = chainId s \<and> validate s' = validate s)"

text \<open>The key an operation writes.\<close>

fun opKey :: "dbop \<Rightarrow> key" where
  "opKey (Put k v) = k"
| "opKey (Del k) = k"

text \<open>\<open>ethashOnly s s0\<close>: the state \<open>s0\<close> is the state \<open>s\<close> but for entries of the store under
  Ethash's keys.\<close>

definition ethashOnly :: "state \<Rightarrow> state \<Rightarrow> bool" where
  "ethashOnly s s0 =
     (cache s0 = cache s \<and> heads s0 = heads s \<and> headHeader s0 = headHeader s
      \<and> headBlock s0 = headBlock s \<and> genesis s0 = genesis s \<and> staleHeads s0 = staleHeads s
      \<and> staleHeadBlock s0 = staleHeadBlock s \<and> chainId s0 = chainId s
      \<and> validate s0 = validate s
      \<and> (\<forall>k. (\<forall>e. k \<noteq> EthashKey e) \<longrightarrow> db s0 k = db s k))"

text \<open>An operation on one of the two lookup tables (number to hash, hash to number).\<close>

definition lookupOp :: "dbop \<Rightarrow> bool" where
  "lookupOp op = (case opKey op of NumberToHashKey n \<Rightarrow> True | HashToNumberKey h \<Rightarrow> True
                  | _ \<Rightarrow> False)"

text \<open>What an operation leaves under its key.\<close>

fun opEffect :: "dbop \<Rightarrow> val option" where
  "opEffect (Put k v) = Some v"
| "opEffect (Del k) = None"

text \<open>An operation of one of the two walks of a put.\<close>

definition putOp :: "int \<Rightarrow> (header \<Rightarrow> bool) \<Rightarrow> dbop \<Rightarrow> bool" where
  "putOp lo R op = (delOp lo op \<or> saveOp R op)"

text \<open>The invariants of a store built by puts. \<open>stored s w\<close>: the header \<open>w\<close> is
  persisted under its own number and hash. \<open>cacheOK\<close>: what the write caches hold is in the
  store, and they hold neither the head pointers nor an entry of Ethash. \<open>headersOK\<close>: a
  header is stored under its hash and its number, which is not negative, with a total
  difficulty and the lookup from its hash. \<open>tdsOK\<close>: a total difficulty is stored with its
  header and, above number 0, is the difficulty of the header plus the stored total
  difficulty of its parent. \<open>canonOK\<close>, \<open>lookupsOK\<close>: the two lookup tables point to stored
  headers. \<open>headsOK\<close>: \<^verbatim>\<open>_headHeader\<close> and \<^verbatim>\<open>_headBlock\<close> are stored headers and no stored
  total difficulty is above that of \<^verbatim>\<open>_headHeader\<close>.\<close>

definition stored :: "state \<Rightarrow> header \<Rightarrow> bool" where
  "stored s w = (db s (HeaderKey (number w) (HashOf w)) = Some (VHeader w))"

definition cacheOK :: "state \<Rightarrow> bool" where
  "cacheOK s =
     (\<forall>k v. cache s k = Some v \<longrightarrow>
        db s k = Some v \<and> k \<noteq> HeadsKey \<and> k \<noteq> HeadHeaderKey \<and> k \<noteq> HeadBlockKey
        \<and> (\<forall>e. k \<noteq> EthashKey e))"

definition headersOK :: "state \<Rightarrow> bool" where
  "headersOK s =
     (\<forall>n h v. db s (HeaderKey n h) = Some v \<longrightarrow>
        (\<exists>w. v = VHeader w \<and> h = HashOf w \<and> n = number w \<and> 0 \<le> n
            \<and> (\<exists>t. db s (TdKey n h) = Some (VTd t))
            \<and> db s (HashToNumberKey h) = Some (VNumber n)))"

definition tdsOK :: "state \<Rightarrow> bool" where
  "tdsOK s =
     (\<forall>n h v. db s (TdKey n h) = Some v \<longrightarrow>
        (\<exists>w t. v = VTd t \<and> db s (HeaderKey n h) = Some (VHeader w)
            \<and> (n \<noteq> 0 \<longrightarrow>
                 (\<exists>pt. db s (TdKey (n - 1) (parentHash w)) = Some (VTd pt)
                      \<and> t = difficulty w + pt))))"

definition canonOK :: "state \<Rightarrow> bool" where
  "canonOK s =
     (\<forall>k v. db s (NumberToHashKey k) = Some v \<longrightarrow>
        (\<exists>w. v = VHash (HashOf w) \<and> number w = k \<and> stored s w))"

definition lookupsOK :: "state \<Rightarrow> bool" where
  "lookupsOK s =
     (\<forall>h v. db s (HashToNumberKey h) = Some v \<longrightarrow>
        (\<exists>w. h = HashOf w \<and> v = VNumber (number w) \<and> stored s w))"

definition headsOK :: "state \<Rightarrow> bool" where
  "headsOK s =
     (\<exists>wh wb T. headHeader s = Some (HashOf wh) \<and> stored s wh
        \<and> db s (TdKey (number wh) (HashOf wh)) = Some (VTd T)
        \<and> (\<forall>n h t. db s (TdKey n h) = Some (VTd t) \<longrightarrow> t \<le> T)
        \<and> headBlock s = Some (HashOf wb) \<and> stored s wb)"

definition wellFormed :: "state \<Rightarrow> bool" where
  "wellFormed s =
     (cacheOK s \<and> headersOK s \<and> tdsOK s \<and> canonOK s \<and> lookupsOK s \<and> headsOK s)"

text \<open>The operations of the batch of one put: the operations for the block, the
  operations of the two walks, and the operations for the head pointers.\<close>

definition blockOp :: "header \<Rightarrow> nat \<Rightarrow> dbop \<Rightarrow> bool" where
  "blockOp hdr td op =
     (op = Put (TdKey (number hdr) (HashOf hdr)) (VTd td)
      \<or> op = Put (HeaderKey (number hdr) (HashOf hdr)) (VHeader hdr)
      \<or> (\<exists>body. op = Put (BodyKey (number hdr) (HashOf hdr)) body))"

definition headOp :: "dbop \<Rightarrow> bool" where
  "headOp op = (opKey op = HeadsKey \<or> opKey op = HeadHeaderKey \<or> opKey op = HeadBlockKey)"

definition batchOp :: "header \<Rightarrow> nat \<Rightarrow> int \<Rightarrow> (header \<Rightarrow> bool) \<Rightarrow> dbop \<Rightarrow> bool" where
  "batchOp hdr td lo R op = (blockOp hdr td op \<or> putOp lo R op \<or> headOp op)"


text \<open>The recursion equations of the walks, for evaluation on the example chains.\<close>

declare deleteStaleAssignments.simps [code] rebuildCanonical.simps [code]
  delChild.simps [code] iteratorRun.simps [code]

text \<open>Collaborators. \<open>loadEpoc0\<close> is an Ethash for which every block is of epoch 0: it
  skips a genesis block, and for another block puts the cache of epoch 0 (the value 7) in
  the store when the store does not hold it. \<open>acceptAll\<close> accepts every block;
  the proof-of-work check of \<open>rejectPoW\<close> rejects every block; the validation of
  \<open>rejectBlock\<close> rejects every block.\<close>

definition loadEpoc0 :: "block \<Rightarrow> (nat \<rightharpoonup> nat) \<Rightarrow> (nat \<times> nat) option" where
  "loadEpoc0 b m = (if isGenesis b \<or> m 0 \<noteq> None then None else Some (0, 7))"

definition acceptAll :: collab where
  "acceptAll = \<lparr>blockValidate = (\<lambda>s b. True), ethashVerifyPOW = (\<lambda>b. True),
                 ethashLoadEpoc = loadEpoc0\<rparr>"

definition rejectPoW :: collab where
  "rejectPoW = \<lparr>blockValidate = (\<lambda>s b. True), ethashVerifyPOW = (\<lambda>b. False),
                 ethashLoadEpoc = loadEpoc0\<rparr>"

definition rejectBlock :: collab where
  "rejectBlock = \<lparr>blockValidate = (\<lambda>s b. False), ethashVerifyPOW = (\<lambda>b. True),
                   ethashLoadEpoc = loadEpoc0\<rparr>"

text \<open>Example headers: genesis \<open>G\<close>; the chain \<open>A1\<close>, \<open>A2\<close> on it; the sibling \<open>B1\<close> of \<open>A1\<close>
  with a higher difficulty and its child \<open>B2\<close>; the sibling \<open>C2\<close> of \<open>A2\<close> with a higher
  difficulty; the sibling \<open>D1\<close> of \<open>A1\<close> with the same difficulty. The last field tells
  siblings of equal difficulty apart.\<close>

definition hdrG :: header where "hdrG = Header (RawHash 0) 0 1 0"

definition hdrA1 :: header where "hdrA1 = Header (HashOf hdrG) 1 1 0"

definition hdrA2 :: header where "hdrA2 = Header (HashOf hdrA1) 2 1 0"

definition hdrB1 :: header where "hdrB1 = Header (HashOf hdrG) 1 2 1"

definition hdrB2 :: header where "hdrB2 = Header (HashOf hdrB1) 2 1 0"

definition hdrC2 :: header where "hdrC2 = Header (HashOf hdrA1) 2 5 1"

definition hdrD1 :: header where "hdrD1 = Header (HashOf hdrG) 1 1 1"

text \<open>A block with the given header, one transaction and chain id 1.\<close>

definition blockOf :: "header \<Rightarrow> block" where
  "blockOf h = \<lparr>header = h, transactions = [7], uncleHeaders = [], commonChainId = 1\<rparr>"

text \<open>The state an operation leaves (an empty store if it does not return).\<close>

definition stateOf :: "(error option \<times> state) option \<Rightarrow> state" where
  "stateOf r = (case r of Some (e, s) \<Rightarrow> s | None \<Rightarrow> newBlockchain Map.empty 0 False)"

text \<open>Example stores, each built by the operations of the class: \<^verbatim>\<open>init\<close> with the genesis
  block (\<open>chainG\<close>, and \<open>chainGv\<close> with \<^verbatim>\<open>validate\<close> set); then \<^verbatim>\<open>putBlock\<close> of \<open>A1\<close>
  (\<open>chainA1\<close>) and of \<open>A2\<close> (\<open>chainA2\<close>); \<open>chainA2vm\<close> after an iterator named \<^verbatim>\<open>'vm'\<close> has
  run over \<open>chainA2\<close>; \<open>chainC2walk\<close> after the first step of the walk of \<open>C2\<close> on it;
  \<open>chainB1\<close> after \<^verbatim>\<open>putHeader\<close> of \<open>B1\<close> on \<open>chainA1\<close>, and \<open>chainB2\<close> after \<^verbatim>\<open>putBlock\<close>
  of \<open>B2\<close> on that.\<close>

definition chainG :: state where
  "chainG = stateOf (init acceptAll (blockOf hdrG) (newBlockchain Map.empty 1 False))"

definition chainGv :: state where
  "chainGv = stateOf (init acceptAll (blockOf hdrG) (newBlockchain Map.empty 1 True))"

definition chainA1 :: state where
  "chainA1 = stateOf (putBlock acceptAll (blockOf hdrA1) False chainG)"

definition chainA2 :: state where
  "chainA2 = stateOf (putBlock acceptAll (blockOf hdrA2) False chainA1)"

definition chainA2vm :: state where
  "chainA2vm = (case iterator ''vm'' (\<lambda>b r. None) chainA2 of
                  Some (e, calls, s) \<Rightarrow> s | None \<Rightarrow> chainA2)"

definition chainC2walk :: state where
  "chainC2walk = (case rebuildStep hdrC2 [] chainA2vm of
                    Continue p ops s \<Rightarrow> s | Return e ops s \<Rightarrow> s)"

definition chainB1 :: state where
  "chainB1 = stateOf (putHeader acceptAll hdrB1 1 chainA1)"

definition chainB2 :: state where
  "chainB2 = stateOf (putBlock acceptAll (blockOf hdrB2) False chainB1)"

section \<open>Properties\<close>

subsection \<open>Fields of the small state transformers\<close>

lemma cached_fields [simp]:
  "cache (cached new s) = foldl applyOp (cache s) new" "db (cached new s) = db s"
  "heads (cached new s) = heads s" "headHeader (cached new s) = headHeader s"
  "headBlock (cached new s) = headBlock s" "genesis (cached new s) = genesis s"
  "staleHeads (cached new s) = staleHeads s" "staleHeadBlock (cached new s) = staleHeadBlock s"
  "chainId (cached new s) = chainId s" "validate (cached new s) = validate s"
  by (simp_all add: cached_def)

lemma resetIteratorHeads_fields [simp]:
  "cache (resetIteratorHeads h hh s) = cache s" "db (resetIteratorHeads h hh s) = db s"
  "heads (resetIteratorHeads h hh s)
     = map (\<lambda>(name, x). if x = h then (name, hh) else (name, x)) (heads s)"
  "headHeader (resetIteratorHeads h hh s) = headHeader s"
  "headBlock (resetIteratorHeads h hh s) = headBlock s"
  "genesis (resetIteratorHeads h hh s) = genesis s"
  "staleHeads (resetIteratorHeads h hh s) = staleHeads s"
  "staleHeadBlock (resetIteratorHeads h hh s) = staleHeadBlock s"
  "chainId (resetIteratorHeads h hh s) = chainId s"
  "validate (resetIteratorHeads h hh s) = validate s"
  by (simp_all add: resetIteratorHeads_def)

lemma resetHeadBlock_fields [simp]:
  "cache (resetHeadBlock h hh s) = cache s" "db (resetHeadBlock h hh s) = db s"
  "heads (resetHeadBlock h hh s) = heads s"
  "headHeader (resetHeadBlock h hh s) = headHeader s"
  "headBlock (resetHeadBlock h hh s) = (if headBlock s = Some h then Some hh else headBlock s)"
  "genesis (resetHeadBlock h hh s) = genesis s"
  "staleHeads (resetHeadBlock h hh s) = staleHeads s"
  "staleHeadBlock (resetHeadBlock h hh s) = staleHeadBlock s"
  "chainId (resetHeadBlock h hh s) = chainId s"
  "validate (resetHeadBlock h hh s) = validate s"
  by (simp_all add: resetHeadBlock_def)

lemma resetHeadHeader_fields [simp]:
  "cache (resetHeadHeader h hh s) = cache s" "db (resetHeadHeader h hh s) = db s"
  "heads (resetHeadHeader h hh s) = heads s"
  "headHeader (resetHeadHeader h hh s) = (if headHeader s = Some h then Some hh else headHeader s)"
  "headBlock (resetHeadHeader h hh s) = headBlock s"
  "genesis (resetHeadHeader h hh s) = genesis s"
  "staleHeads (resetHeadHeader h hh s) = staleHeads s"
  "staleHeadBlock (resetHeadHeader h hh s) = staleHeadBlock s"
  "chainId (resetHeadHeader h hh s) = chainId s"
  "validate (resetHeadHeader h hh s) = validate s"
  by (simp_all add: resetHeadHeader_def)

lemma flagStaleHeads_fields [simp]:
  "cache (flagStaleHeads sh s) = cache s" "db (flagStaleHeads sh s) = db s"
  "heads (flagStaleHeads sh s) = heads s"
  "headHeader (flagStaleHeads sh s) = headHeader s"
  "headBlock (flagStaleHeads sh s) = headBlock s"
  "genesis (flagStaleHeads sh s) = genesis s"
  "staleHeadBlock (flagStaleHeads sh s) = staleHeadBlock s"
  "chainId (flagStaleHeads sh s) = chainId s" "validate (flagStaleHeads sh s) = validate s"
  by (simp_all add: flagStaleHeads_def Let_def split: option.splits)

lemma flagStaleHeadBlock_fields [simp]:
  "cache (flagStaleHeadBlock sh s) = cache s" "db (flagStaleHeadBlock sh s) = db s"
  "heads (flagStaleHeadBlock sh s) = heads s"
  "headHeader (flagStaleHeadBlock sh s) = headHeader s"
  "headBlock (flagStaleHeadBlock sh s) = headBlock s"
  "genesis (flagStaleHeadBlock sh s) = genesis s"
  "staleHeads (flagStaleHeadBlock sh s) = staleHeads s"
  "staleHeadBlock (flagStaleHeadBlock sh s)
     = (staleHeadBlock s \<or> (sh \<noteq> None \<and> headBlock s = sh))"
  "chainId (flagStaleHeadBlock sh s) = chainId s" "validate (flagStaleHeadBlock sh s) = validate s"
  by (auto simp: flagStaleHeadBlock_def)

lemma resetStaleHeads_fields [simp]:
  "cache (resetStaleHeads h s) = cache s" "db (resetStaleHeads h s) = db s"
  "headHeader (resetStaleHeads h s) = headHeader s"
  "headBlock (resetStaleHeads h s) = (if staleHeadBlock s then Some h else headBlock s)"
  "genesis (resetStaleHeads h s) = genesis s"
  "staleHeads (resetStaleHeads h s) = None" "staleHeadBlock (resetStaleHeads h s) = False"
  "chainId (resetStaleHeads h s) = chainId s" "validate (resetStaleHeads h s) = validate s"
  by (simp_all add: resetStaleHeads_def)

lemma acceptHead_fields [simp]:
  "cache (acceptHead it s) = cache s" "db (acceptHead it s) = db s"
  "heads (acceptHead it s) = heads s"
  "headHeader (acceptHead it s) = Some (HashOf (header (itemBlock it)))"
  "headBlock (acceptHead it s)
     = (if \<not> isHeader it then Some (HashOf (header (itemBlock it))) else headBlock s)"
  "genesis (acceptHead it s)
     = (if isGenesis (itemBlock it) then Some (HashOf (header (itemBlock it))) else genesis s)"
  "staleHeads (acceptHead it s) = staleHeads s"
  "staleHeadBlock (acceptHead it s) = staleHeadBlock s"
  "chainId (acceptHead it s) = chainId s" "validate (acceptHead it s) = validate s"
  by (simp_all add: acceptHead_def Let_def)

lemma acceptHeadBlock_fields [simp]:
  "cache (acceptHeadBlock it td c s) = cache s" "db (acceptHeadBlock it td c s) = db s"
  "heads (acceptHeadBlock it td c s) = heads s"
  "headHeader (acceptHeadBlock it td c s) = headHeader s"
  "headBlock (acceptHeadBlock it td c s)
     = (if td > c \<and> \<not> isHeader it then Some (HashOf (header (itemBlock it))) else headBlock s)"
  "genesis (acceptHeadBlock it td c s) = genesis s"
  "staleHeads (acceptHeadBlock it td c s) = staleHeads s"
  "staleHeadBlock (acceptHeadBlock it td c s) = staleHeadBlock s"
  "chainId (acceptHeadBlock it td c s) = chainId s"
  "validate (acceptHeadBlock it td c s) = validate s"
  by (simp_all add: acceptHeadBlock_def)

lemma dbm_batch_fields [simp]:
  "cache (dbm_batch ops s) = cache s" "db (dbm_batch ops s) = foldl applyOp (db s) ops"
  "heads (dbm_batch ops s) = heads s" "headHeader (dbm_batch ops s) = headHeader s"
  "headBlock (dbm_batch ops s) = headBlock s" "genesis (dbm_batch ops s) = genesis s"
  "staleHeads (dbm_batch ops s) = staleHeads s"
  "staleHeadBlock (dbm_batch ops s) = staleHeadBlock s"
  "chainId (dbm_batch ops s) = chainId s" "validate (dbm_batch ops s) = validate s"
  by (simp_all add: dbm_batch_def)

subsection \<open>Reads depend on the cache and the store at their key only\<close>

lemma dbGet_cong:
  "cache s' k = cache s k \<Longrightarrow> db s' k = db s k \<Longrightarrow> dbGet s' k = dbGet s k"
  by (simp add: dbGet_def split: option.splits)

lemma dbm_getHeader_cong:
  "cache s' (HeaderKey m h) = cache s (HeaderKey m h)
     \<Longrightarrow> db s' (HeaderKey m h) = db s (HeaderKey m h)
     \<Longrightarrow> dbm_getHeader s' h m = dbm_getHeader s h m"
  using dbGet_cong[of s' "HeaderKey m h" s] by (simp add: dbm_getHeader_def)

lemma dbm_getTd_cong:
  "cache s' (TdKey m h) = cache s (TdKey m h) \<Longrightarrow> db s' (TdKey m h) = db s (TdKey m h)
     \<Longrightarrow> dbm_getTd s' h m = dbm_getTd s h m"
  using dbGet_cong[of s' "TdKey m h" s] by (simp add: dbm_getTd_def)

lemma dbm_hashToNumber_cong:
  "cache s' (HashToNumberKey h) = cache s (HashToNumberKey h)
     \<Longrightarrow> db s' (HashToNumberKey h) = db s (HashToNumberKey h)
     \<Longrightarrow> dbm_hashToNumber s' h = dbm_hashToNumber s h"
  using dbGet_cong[of s' "HashToNumberKey h" s] by (simp add: dbm_hashToNumber_def)

lemma dbm_numberToHash_cong:
  "cache s' (NumberToHashKey n) = cache s (NumberToHashKey n)
     \<Longrightarrow> db s' (NumberToHashKey n) = db s (NumberToHashKey n)
     \<Longrightarrow> dbm_numberToHash s' n = dbm_numberToHash s n"
  using dbGet_cong[of s' "NumberToHashKey n" s] by (simp add: dbm_numberToHash_def)

subsection \<open>Operations applied to a map\<close>

lemma applyOp_other: "opKey op \<noteq> k \<Longrightarrow> applyOp m op k = m k"
  by (cases op) simp_all

lemma foldl_applyOp_other:
  "\<forall>op \<in> set ops. opKey op \<noteq> k \<Longrightarrow> foldl applyOp m ops k = m k"
  by (induction ops arbitrary: m) (simp_all add: applyOp_other)

lemma foldl_applyOp_append_other:
  "\<forall>op \<in> set ext. opKey op \<noteq> k \<Longrightarrow> foldl applyOp m (ops @ ext) k = foldl applyOp m ops k"
  by (simp add: foldl_applyOp_other)

subsection \<open>The mirrored relation\<close>

lemma mirrored_refl: "mirrored P s ops s ops"
  by (simp add: mirrored_def)

lemma mirrored_trans:
  assumes "mirrored P s ops s1 ops1" "mirrored P s1 ops1 s2 ops2"
  shows "mirrored P s ops s2 ops2"
proof -
  from assms(1) obtain e1 where e1: "ops1 = ops @ e1" "cache s1 = foldl applyOp (cache s) e1"
    "list_all P e1" "db s1 = db s" "headHeader s1 = headHeader s"
    "genesis s1 = genesis s" "chainId s1 = chainId s" "validate s1 = validate s"
    unfolding mirrored_def by blast
  from assms(2) obtain e2 where e2: "ops2 = ops1 @ e2" "cache s2 = foldl applyOp (cache s1) e2"
    "list_all P e2" "db s2 = db s1" "headHeader s2 = headHeader s1"
    "genesis s2 = genesis s1" "chainId s2 = chainId s1" "validate s2 = validate s1"
    unfolding mirrored_def by blast
  show ?thesis unfolding mirrored_def
    by (rule exI[of _ "e1 @ e2"]) (use e1 e2 in simp)
qed

lemma mirrored_mono:
  "mirrored P s ops s' ops' \<Longrightarrow> (\<And>op. P op \<Longrightarrow> Q op) \<Longrightarrow> mirrored Q s ops s' ops'"
  unfolding mirrored_def list_all_iff by blast

lemma mirrored_step:
  assumes "cache s1 = foldl applyOp (cache s) ext" "list_all P ext"
    "db s1 = db s" "headHeader s1 = headHeader s" "genesis s1 = genesis s"
    "chainId s1 = chainId s" "validate s1 = validate s"
  shows "mirrored P s ops s1 (ops @ ext)"
  using assms unfolding mirrored_def by blast

lemma mirrored_fields:
  assumes "cache s1 = cache s" "db s1 = db s" "headHeader s1 = headHeader s"
    "genesis s1 = genesis s" "chainId s1 = chainId s" "validate s1 = validate s"
  shows "mirrored P s ops s1 ops"
  using assms mirrored_step[of s1 s "[]" P ops] by simp

subsection \<open>One call of deleteStaleAssignments\<close>

lemma deleteStaleStep_Return:
  assumes "deleteStaleStep n hh ops s = Return e ops1 s1"
  shows "mirrored (delOp n) s ops s1 ops1"
    and "headBlock s1 = headBlock s"
    and "staleHeads s1 = staleHeads s" and "staleHeadBlock s1 = staleHeadBlock s"
proof -
  show "mirrored (delOp n) s ops s1 ops1"
  proof (cases "dbm_numberToHash s n")
    case None
    with assms show ?thesis by (simp add: deleteStaleStep_def mirrored_refl)
  next
    case (Some hash)
    with assms have "ops1 = ops @ [Del (NumberToHashKey n)]"
      "s1 = resetIteratorHeads hash hh (cached [Del (NumberToHashKey n)] s)"
      by (simp_all add: deleteStaleStep_def Let_def split: if_splits)
    then show ?thesis by (auto intro!: mirrored_step simp: delOp_def)
  qed
  show "headBlock s1 = headBlock s" "staleHeads s1 = staleHeads s"
    "staleHeadBlock s1 = staleHeadBlock s"
    using assms by (auto simp: deleteStaleStep_def Let_def split: option.splits if_splits)
qed

lemma deleteStaleStep_Continue:
  assumes "deleteStaleStep n hh ops s = Continue n1 ops1 s1"
  shows "mirrored (delOp n) s ops s1 ops1"
    and "headBlock s1 = headBlock s \<or> headBlock s1 = Some hh"
    and "headBlock s \<noteq> None" and "headBlock s = Some hh \<longrightarrow> headBlock s1 = Some hh"
    and "staleHeads s1 = staleHeads s" and "staleHeadBlock s1 = staleHeadBlock s"
    and "n1 = n + 1"
proof -
  from assms obtain hash where h: "dbm_numberToHash s n = Some hash"
    by (cases "dbm_numberToHash s n") (simp_all add: deleteStaleStep_def)
  from assms h have eq: "n1 = n + 1" "ops1 = ops @ [Del (NumberToHashKey n)]"
    "s1 = resetHeadBlock hash hh (resetIteratorHeads hash hh (cached [Del (NumberToHashKey n)] s))"
    and hb: "headBlock s \<noteq> None"
    by (simp_all add: deleteStaleStep_def Let_def split: if_splits)
  show "mirrored (delOp n) s ops s1 ops1"
    unfolding eq by (auto intro!: mirrored_step simp: delOp_def)
  show "headBlock s1 = headBlock s \<or> headBlock s1 = Some hh"
    "headBlock s = Some hh \<longrightarrow> headBlock s1 = Some hh"
    "staleHeads s1 = staleHeads s" "staleHeadBlock s1 = staleHeadBlock s"
    unfolding eq by simp_all
  show "headBlock s \<noteq> None" by (rule hb)
  show "n1 = n + 1" by (rule eq)
qed

lemma deleteStale_effect_aux:
  "deleteStaleAssignments n hh ops s = Some r \<Longrightarrow>
     mirrored (delOp n) s ops (snd (snd r)) (fst (snd r))
     \<and> (headBlock (snd (snd r)) = headBlock s \<or> headBlock (snd (snd r)) = Some hh)
     \<and> (headBlock s = Some hh \<longrightarrow> headBlock (snd (snd r)) = Some hh)
     \<and> staleHeads (snd (snd r)) = staleHeads s
     \<and> staleHeadBlock (snd (snd r)) = staleHeadBlock s"
proof (induction rule: deleteStaleAssignments.raw_induct[rotated 1, consumes 1])
  case (1 dsa n hh ops s r)
  show ?case
  proof (cases "deleteStaleStep n hh ops s")
    case (Return e ops1 s1)
    with 1(2) have r: "r = (e, ops1, s1)" by simp
    from deleteStaleStep_Return[OF Return] show ?thesis unfolding r by simp
  next
    case (Continue n1 ops1 s1)
    with 1(2) have "dsa n1 hh ops1 s1 = Some r" by simp
    from 1(1)[OF this] have ih: "mirrored (delOp n1) s1 ops1 (snd (snd r)) (fst (snd r))"
      and rest: "headBlock (snd (snd r)) = headBlock s1 \<or> headBlock (snd (snd r)) = Some hh"
        "headBlock s1 = Some hh \<longrightarrow> headBlock (snd (snd r)) = Some hh"
        "staleHeads (snd (snd r)) = staleHeads s1"
        "staleHeadBlock (snd (snd r)) = staleHeadBlock s1"
      by simp_all
    note c = deleteStaleStep_Continue[OF Continue]
    from ih have "mirrored (delOp n) s1 ops1 (snd (snd r)) (fst (snd r))"
      by (rule mirrored_mono) (auto simp: delOp_def c(7))
    with c(1) have "mirrored (delOp n) s ops (snd (snd r)) (fst (snd r))"
      by (rule mirrored_trans)
    with rest c show ?thesis by auto
  qed
qed

lemma deleteStale_effect:
  assumes "deleteStaleAssignments n hh ops s = Some (e, ops', s')"
  shows "mirrored (delOp n) s ops s' ops'"
    and "headBlock s' = headBlock s \<or> headBlock s' = Some hh"
    and "headBlock s = Some hh \<longrightarrow> headBlock s' = Some hh"
    and "staleHeads s' = staleHeads s" and "staleHeadBlock s' = staleHeadBlock s"
  using deleteStale_effect_aux[OF assms] by simp_all

subsection \<open>One call of rebuildCanonical\<close>

lemma list_all_saveOp_lookupOps: "R w \<Longrightarrow> list_all (saveOp R) (lookupOps (HashOf w) (number w))"
  by (auto simp: lookupOps_def saveOp_def)

lemma rebuildStep_Return:
  assumes "rebuildStep hdr ops s = Return e ops1 s1" and "R hdr"
  shows "mirrored (saveOp R) s ops s1 ops1"
proof -
  let ?l = "lookupOps (HashOf hdr) (number hdr)"
  let ?stale = "dbm_numberToHash s (number hdr)"
  have m1: "mirrored (saveOp R) s ops (cached ?l s) (ops @ ?l)"
    by (rule mirrored_step) (simp_all add: list_all_saveOp_lookupOps assms(2))
  show ?thesis
  proof (cases "number hdr = 0")
    case True
    with assms(1) m1 show ?thesis by (simp add: rebuildStep_def Let_def)
  next
    case nz: False
    show ?thesis
    proof (cases "?stale = Some (HashOf hdr)")
      case True
      with assms(1) nz have "ops1 = ops" "s1 = resetStaleHeads (HashOf hdr) s"
        by (simp_all add: rebuildStep_def Let_def)
      then show ?thesis by (simp add: mirrored_fields)
    next
      case st: False
      from assms(1) nz st have o1: "ops1 = ops @ ?l"
        by (auto simp: rebuildStep_def Let_def split: if_splits option.splits)
      from assms(1) nz st
      have "cache s1 = cache (cached ?l s) \<and> db s1 = db s \<and> headHeader s1 = headHeader s
          \<and> genesis s1 = genesis s \<and> chainId s1 = chainId s \<and> validate s1 = validate s"
        by (auto simp: rebuildStep_def Let_def split: if_splits option.splits)
      then have "mirrored (saveOp R) (cached ?l s) (ops @ ?l) s1 (ops @ ?l)"
        by (intro mirrored_fields) simp_all
      with m1 show ?thesis unfolding o1 by (rule mirrored_trans)
    qed
  qed
qed

lemma rebuildStep_Continue:
  assumes "rebuildStep hdr ops s = Continue parent ops1 s1"
  shows "number hdr \<noteq> 0" "dbm_numberToHash s (number hdr) \<noteq> Some (HashOf hdr)"
    "dbm_getHeader s (parentHash hdr) (number hdr - 1) = Some parent"
    "ops1 = ops @ lookupOps (HashOf hdr) (number hdr)"
    "cache s1 = foldl applyOp (cache s) (lookupOps (HashOf hdr) (number hdr))"
    "db s1 = db s" "headHeader s1 = headHeader s" "genesis s1 = genesis s"
    "chainId s1 = chainId s" "validate s1 = validate s"
    "heads s1 = heads s" "headBlock s1 = headBlock s"
    "staleHeadBlock s1 = (staleHeadBlock s \<or> (headBlock s \<noteq> None
             \<and> headBlock s = dbm_numberToHash s (number hdr)))"
proof -
  let ?l = "lookupOps (HashOf hdr) (number hdr)"
  let ?stale = "dbm_numberToHash s (number hdr)"
  let ?s3 = "flagStaleHeadBlock ?stale (flagStaleHeads ?stale (cached ?l s))"
  show nz: "number hdr \<noteq> 0" using assms by (auto simp: rebuildStep_def Let_def)
  show st: "?stale \<noteq> Some (HashOf hdr)"
    using assms nz by (auto simp: rebuildStep_def Let_def)
  from assms nz st
  have gh: "getHeader ?s3 (parentHash hdr) (Some (number hdr - 1)) = Some parent"
    and o1: "ops1 = ops @ ?l" and s1: "s1 = ?s3"
    by (auto simp: rebuildStep_def Let_def split: if_splits option.splits)
  show "ops1 = ops @ ?l" by (rule o1)
  have "dbm_getHeader ?s3 (parentHash hdr) (number hdr - 1)
          = dbm_getHeader s (parentHash hdr) (number hdr - 1)"
    by (rule dbm_getHeader_cong) (simp_all add: lookupOps_def)
  with gh show "dbm_getHeader s (parentHash hdr) (number hdr - 1) = Some parent"
    by (simp add: getHeader_def lookupByHashNumber_def)
  show "cache s1 = foldl applyOp (cache s) ?l"
    "db s1 = db s" "headHeader s1 = headHeader s" "genesis s1 = genesis s"
    "chainId s1 = chainId s" "validate s1 = validate s"
    "heads s1 = heads s" "headBlock s1 = headBlock s"
    unfolding s1 by simp_all
  show "staleHeadBlock s1 = (staleHeadBlock s \<or> (headBlock s \<noteq> None
             \<and> headBlock s = dbm_numberToHash s (number hdr)))"
    unfolding s1 by (cases "dbm_numberToHash s (number hdr)") auto
qed

lemma rebuildStep_Continue_mirrored:
  assumes "rebuildStep hdr ops s = Continue parent ops1 s1" and "R hdr"
  shows "mirrored (saveOp R) s ops s1 ops1"
  using rebuildStep_Continue[OF assms(1)] assms(2)
  by (auto intro!: mirrored_step list_all_saveOp_lookupOps)

text \<open>The headers a walk can reach are the header it starts from and the headers that can
  be read; the reads of headers do not change along the walk.\<close>

lemma rebuildCanonical_mirrored_aux:
  "rebuildCanonical hdr ops s = Some r \<Longrightarrow> R hdr
     \<Longrightarrow> (\<And>h m w. dbm_getHeader s h m = Some w \<Longrightarrow> R w)
     \<Longrightarrow> mirrored (saveOp R) s ops (snd (snd r)) (fst (snd r))"
proof (induction rule: rebuildCanonical.raw_induct[rotated 1, consumes 1])
  case (1 rc hdr ops s r)
  show ?case
  proof (cases "rebuildStep hdr ops s")
    case (Return e ops1 s1)
    with 1(2) have r: "r = (e, ops1, s1)" by simp
    from rebuildStep_Return[of hdr ops s e ops1 s1 R, OF Return 1(3)]
    show ?thesis unfolding r by simp
  next
    case (Continue parent ops1 s1)
    note c = rebuildStep_Continue[OF Continue]
    from 1(2) Continue have call: "rc parent ops1 s1 = Some r" by simp
    have Rp: "R parent" using c(3) 1(4) by blast
    have reads: "\<And>h m w. dbm_getHeader s1 h m = Some w \<Longrightarrow> R w"
    proof -
      fix h m w assume a: "dbm_getHeader s1 h m = Some w"
      have "dbm_getHeader s1 h m = dbm_getHeader s h m"
        by (rule dbm_getHeader_cong) (simp_all add: c lookupOps_def)
      with a 1(4) show "R w" by auto
    qed
    from 1(1)[OF call Rp reads]
      rebuildStep_Continue_mirrored[of hdr ops s parent ops1 s1 R, OF Continue 1(3)]
    show ?thesis by (auto intro: mirrored_trans)
  qed
qed

lemma rebuildCanonical_mirrored:
  assumes "rebuildCanonical hdr ops s = Some (e, ops', s')" and "R hdr"
    and "\<And>h m w. dbm_getHeader s h m = Some w \<Longrightarrow> R w"
  shows "mirrored (saveOp R) s ops s' ops'"
  using rebuildCanonical_mirrored_aux[OF assms(1), of R] assms(2,3) by simp

lemma ethashOnly_refl: "ethashOnly s s"
  by (simp add: ethashOnly_def)

lemma ethashLoaded_ethashOnly: "ethashOnly s (ethashLoaded E blk s)"
  by (auto simp: ethashOnly_def ethashLoaded_def split: option.splits)

lemma ethashLoaded_cases:
  "ethashLoaded E blk s = s
   \<or> (\<exists>e c. ethashLoadEpoc E blk (ethashEntries s) = Some (e, c)
          \<and> ethashLoaded E blk s = s\<lparr>db := (db s)(EthashKey e \<mapsto> VEthash c)\<rparr>)"
  by (auto simp: ethashLoaded_def split: option.splits)

lemma verifyPOW_cases:
  "verifyPOW E blk s = (None, s) \<and> \<not> validate s
   \<or> verifyPOW E blk s = (None, ethashLoaded E blk s) \<and> validate s \<and> ethashVerifyPOW E blk
   \<or> verifyPOW E blk s = (Some InvalidPoW, ethashLoaded E blk s) \<and> validate s
        \<and> \<not> ethashVerifyPOW E blk"
  by (simp add: verifyPOW_def)

lemma verifyPOW_ethashOnly: "verifyPOW E blk s = (e, s0) \<Longrightarrow> ethashOnly s s0"
  using verifyPOW_cases[of E blk s] ethashLoaded_ethashOnly[of s E blk] ethashOnly_refl[of s]
  by auto

lemma ethashOnly_fields:
  assumes "ethashOnly s s0"
  shows "cache s0 = cache s" "heads s0 = heads s" "headHeader s0 = headHeader s"
    "headBlock s0 = headBlock s" "genesis s0 = genesis s" "staleHeads s0 = staleHeads s"
    "staleHeadBlock s0 = staleHeadBlock s" "chainId s0 = chainId s" "validate s0 = validate s"
    "\<And>n h. db s0 (HeaderKey n h) = db s (HeaderKey n h)"
    "\<And>n h. db s0 (BodyKey n h) = db s (BodyKey n h)"
    "\<And>n h. db s0 (TdKey n h) = db s (TdKey n h)"
    "\<And>n. db s0 (NumberToHashKey n) = db s (NumberToHashKey n)"
    "\<And>h. db s0 (HashToNumberKey h) = db s (HashToNumberKey h)"
    "db s0 HeadsKey = db s HeadsKey" "db s0 HeadHeaderKey = db s HeadHeaderKey"
    "db s0 HeadBlockKey = db s HeadBlockKey"
  using assms by (simp_all add: ethashOnly_def)

lemma ethashOnly_reads:
  assumes "ethashOnly s s0"
  shows "dbm_getHeader s0 h n = dbm_getHeader s h n"
    and "dbm_getTd s0 h n = dbm_getTd s h n"
    and "dbm_hashToNumber s0 h = dbm_hashToNumber s h"
    and "dbm_numberToHash s0 n = dbm_numberToHash s n"
proof -
  note f = ethashOnly_fields[OF assms]
  show "dbm_getHeader s0 h n = dbm_getHeader s h n"
    by (rule dbm_getHeader_cong) (simp_all add: f)
  show "dbm_getTd s0 h n = dbm_getTd s h n"
    by (rule dbm_getTd_cong) (simp_all add: f)
  show "dbm_hashToNumber s0 h = dbm_hashToNumber s h"
    by (rule dbm_hashToNumber_cong) (simp_all add: f)
  show "dbm_numberToHash s0 n = dbm_numberToHash s n"
    by (rule dbm_numberToHash_cong) (simp_all add: f)
qed

lemma ethashOnly_getTd:
  assumes "ethashOnly s s0"
  shows "getTd s0 h numberOpt = getTd s h numberOpt"
  by (simp add: getTd_def lookupByHashNumber_def ethashOnly_reads[OF assms]
        split: option.splits)

lemma ethashOnly_getCurrentTd:
  assumes "ethashOnly s s0"
  shows "getCurrentTd isGen s0 = getCurrentTd isGen s"
  by (simp add: getCurrentTd_def ethashOnly_getTd[OF assms] ethashOnly_fields(3,4)[OF assms]
        cong: option.case_cong)

lemma ethashOnly_getBlockTd:
  assumes "ethashOnly s s0"
  shows "getBlockTd isGen hdr s0 = getBlockTd isGen hdr s"
  by (simp add: getBlockTd_def ethashOnly_getTd[OF assms] cong: option.case_cong)

subsection \<open>The put pipeline\<close>

lemma putAccepted_success:
  assumes "putAccepted it isGen s = Some (None, s')"
  obtains currentTd td ops s1 where
    "getCurrentTd isGen s = Some currentTd"
    "getBlockTd isGen (header (itemBlock it)) s = Some td"
    "rebuildInfo it isGen td currentTd s = Some (None, ops, s1)"
    "s' = dbm_batch (ops @ saveHeadOps s1) s1"
  using assms
  by (auto simp: putAccepted_def split: option.splits prod.splits)

lemma putBlockOrHeader_success:
  assumes "putBlockOrHeader E it isGen s = Some (None, s')"
  obtains s0 where
    "commonChainId (itemBlock it) = chainId s"
    "verify E (itemBlock it) isGen s = None"
    "verifyPOW E (itemBlock it) s = (None, s0)"
    "ethashOnly s s0"
    "putAccepted it isGen s0 = Some (None, s')"
proof -
  obtain e s0 where v: "verifyPOW E (itemBlock it) s = (e, s0)"
    by (cases "verifyPOW E (itemBlock it) s")
  from assms v have "commonChainId (itemBlock it) = chainId s"
    "verify E (itemBlock it) isGen s = None" "e = None"
    "putAccepted it isGen s0 = Some (None, s')"
    by (auto simp: putBlockOrHeader_def Let_def split: if_splits option.splits)
  with v verifyPOW_ethashOnly[OF v] that show ?thesis by simp
qed

lemma delOp_lookupOp: "delOp lo op \<Longrightarrow> lookupOp op"
  by (auto simp: delOp_def lookupOp_def)

lemma saveOp_lookupOp: "saveOp R op \<Longrightarrow> lookupOp op"
  by (auto simp: saveOp_def lookupOp_def)

lemma rebuildInfo_wins:
  assumes "rebuildInfo it isGen td currentTd s = Some (e, ops, s1)"
    and "isGenesis (itemBlock it) \<or> td > fst currentTd"
  obtains e2 ops2 s2 where
    "deleteStaleAssignments (number (header (itemBlock it)) + 1) (HashOf (header (itemBlock it)))
        (blockOps it isGen td) (acceptHead it (cached (blockOps it isGen td) s)) = Some (e2, ops2, s2)"
    "e2 \<noteq> None \<longrightarrow> (e, ops, s1) = (e2, ops2, s2)"
    "e2 = None \<longrightarrow> rebuildCanonical (header (itemBlock it)) ops2 s2 = Some (e, ops, s1)"
  using assms
  by (auto simp: rebuildInfo_def Let_def split: option.splits prod.splits)

lemma rebuildInfo_loses:
  assumes "rebuildInfo it isGen td currentTd s = Some (e, ops, s1)"
    and "\<not> (isGenesis (itemBlock it) \<or> td > fst currentTd)"
  shows "e = None"
    and "ops = blockOps it isGen td
            @ [Put (HashToNumberKey (HashOf (header (itemBlock it))))
                   (VNumber (number (header (itemBlock it))))]"
    and "s1 = cached [Put (HashToNumberKey (HashOf (header (itemBlock it))))
                          (VNumber (number (header (itemBlock it))))]
                (acceptHeadBlock it td (snd currentTd) (cached (blockOps it isGen td) s))"
  using assms by (auto simp: rebuildInfo_def Let_def)

lemma rebuildInfo_mirrored:
  assumes "rebuildInfo it isGen td currentTd s = Some (e, ops, s1)"
  shows "\<exists>ext. ops = blockOps it isGen td @ ext \<and> list_all lookupOp ext
           \<and> cache s1 = foldl applyOp (cache s) ops \<and> db s1 = db s
           \<and> chainId s1 = chainId s \<and> validate s1 = validate s"
proof (cases "isGenesis (itemBlock it) \<or> td > fst currentTd")
  case False
  from rebuildInfo_loses[OF assms False] show ?thesis
    by (auto simp: lookupOp_def)
next
  case True
  let ?hdr = "header (itemBlock it)"
  let ?b = "blockOps it isGen td"
  let ?s0 = "acceptHead it (cached ?b s)"
  from rebuildInfo_wins[OF assms True] obtain e2 ops2 s2 where
    d: "deleteStaleAssignments (number ?hdr + 1) (HashOf ?hdr) ?b ?s0 = Some (e2, ops2, s2)"
    and err: "e2 \<noteq> None \<longrightarrow> (e, ops, s1) = (e2, ops2, s2)"
    and ok: "e2 = None \<longrightarrow> rebuildCanonical ?hdr ops2 s2 = Some (e, ops, s1)"
    by blast
  have m1: "mirrored lookupOp ?s0 ?b s2 ops2"
    using deleteStale_effect(1)[OF d] by (rule mirrored_mono) (rule delOp_lookupOp)
  have m: "mirrored lookupOp ?s0 ?b s1 ops"
  proof (cases e2)
    case None
    with ok have "rebuildCanonical ?hdr ops2 s2 = Some (e, ops, s1)" by simp
    from rebuildCanonical_mirrored[OF this, of "\<lambda>w. True"]
    have "mirrored (saveOp (\<lambda>w. True)) s2 ops2 s1 ops" by simp
    then have "mirrored lookupOp s2 ops2 s1 ops"
      by (rule mirrored_mono) (rule saveOp_lookupOp)
    with m1 show ?thesis by (rule mirrored_trans)
  next
    case (Some a)
    with err m1 show ?thesis by simp
  qed
  then obtain ext where "ops = ?b @ ext" "cache s1 = foldl applyOp (cache ?s0) ext"
    "list_all lookupOp ext" "db s1 = db ?s0" "chainId s1 = chainId ?s0" "validate s1 = validate ?s0"
    unfolding mirrored_def by blast
  then show ?thesis by auto
qed

lemma dbm_getBlock_not_NoHeadFound: "dbm_getBlock s tag \<noteq> Inl NoHeadFound"
  by (auto simp: dbm_getBlock_def split: blockTag.splits option.splits prod.splits)

text \<open>\<^verbatim>\<open>getHead(name)\<close> for a name that has no entry among the iterator heads and is not
  the name of a property inherited from \<^verbatim>\<open>Object.prototype\<close>: the block read at
  \<^verbatim>\<open>_headBlock\<close> (not at \<^verbatim>\<open>_headHeader\<close>); 'No head found.' exactly when
  \<^verbatim>\<open>_headBlock\<close> is unset.\<close>

theorem getHead_without_entry:
  assumes "map_of (heads s) (case nameOpt of None \<Rightarrow> ''vm'' | Some n \<Rightarrow> n) = None"
    and "(case nameOpt of None \<Rightarrow> ''vm'' | Some n \<Rightarrow> n) \<notin> set objectPrototypeNames"
  shows "getHead nameOpt s =
           (case headBlock s of
              None \<Rightarrow> Inl NoHeadFound
            | Some h \<Rightarrow> dbm_getBlock s (TagHash h))
         \<and> ((getHead nameOpt s = Inl NoHeadFound) = (headBlock s = None))"
  using assms dbm_getBlock_not_NoHeadFound
  by (auto simp: getHead_def headsLookup_def Let_def split: option.splits)

text \<open>For a name with no entry that \<^verbatim>\<open>Object.prototype\<close> has, \<^verbatim>\<open>getBlock\<close> is handed
  the inherited value and refuses it, whatever \<^verbatim>\<open>_headBlock\<close> is.\<close>

lemma getHead_inherited:
  assumes "map_of (heads s) name = None" and "name \<in> set objectPrototypeNames"
  shows "getHead (Some name) s = Inl UnknownBlockTag"
  using assms by (simp add: getHead_def headsLookup_def dbm_getBlock_def)

text \<open>
Claim C7. \<^verbatim>\<open>delBlock(h)\<close> for a block whose header can be read and that is not the
  canonical block of its number deletes exactly the header, body, hash-to-number and total
  difficulty keys of \<open>h\<close>, from the store and from the caches; every other key (the keys of
  descendants, all number-to-hash assignments) and \<^verbatim>\<open>_headHeader\<close>, \<^verbatim>\<open>_headBlock\<close>
  and \<^verbatim>\<open>_heads\<close> are unchanged.
\<close>

theorem delBlock_non_canonical:
  assumes "getHeader s h None = Some hdr"
    and "dbm_numberToHash s (number hdr) \<noteq> Some h"
  shows "delBlock h s =
           Some (None,
             s\<lparr>db := (db s)(HeaderKey (number hdr) h := None, BodyKey (number hdr) h := None,
                            HashToNumberKey h := None, TdKey (number hdr) h := None),
               cache := (cache s)(HeaderKey (number hdr) h := None, BodyKey (number hdr) h := None,
                            HashToNumberKey h := None, TdKey (number hdr) h := None)\<rparr>)"
  using assms
  by (simp add: delBlock_def delChild.simps[of h "number hdr" None] delChildStep_def Let_def
        dbm_batch_def cached_def blockDelOps_def)

text \<open>
Claim C6, amended. With \<^verbatim>\<open>validate\<close> set, when the block claims to be genesis in a put
  that is not a genesis put, or \<^verbatim>\<open>block.validate\<close> rejects it, or the proof of work is
  rejected, the put returns the error and the chain commits nothing: the caches,
  \<^verbatim>\<open>_headHeader\<close>, \<^verbatim>\<open>_headBlock\<close>, \<^verbatim>\<open>_heads\<close> and every key of the store other than
  Ethash's are as before. When the structural validation fails, the whole state is the one
  before; when the proof of work is rejected, the state is the one Ethash has left: the
  store with the cache of the epoch, if Ethash has put it there.
\<close>

theorem put_validation_failure:
  assumes "validate s"
    and "(\<not> isGen \<and> isGenesis (itemBlock it)) \<or> \<not> blockValidate E s (itemBlock it)
           \<or> \<not> ethashVerifyPOW E (itemBlock it)"
  shows "\<exists>s1. putBlockOrHeader E it isGen s =
           Some (Some (if commonChainId (itemBlock it) \<noteq> chainId s then ChainMismatch
                       else if \<not> isGen \<and> isGenesis (itemBlock it) then AlreadyHaveGenesis
                       else if \<not> blockValidate E s (itemBlock it) then InvalidBlock
                       else InvalidPoW), s1)
         \<and> s1 = (if commonChainId (itemBlock it) \<noteq> chainId s
                     \<or> (\<not> isGen \<and> isGenesis (itemBlock it))
                     \<or> \<not> blockValidate E s (itemBlock it)
                  then s else ethashLoaded E (itemBlock it) s)
         \<and> cache s1 = cache s \<and> heads s1 = heads s \<and> headHeader s1 = headHeader s
         \<and> headBlock s1 = headBlock s
         \<and> (\<forall>k. (\<forall>e. k \<noteq> EthashKey e) \<longrightarrow> db s1 k = db s k)"
proof -
  let ?blk = "itemBlock it"
  let ?s1 = "if commonChainId ?blk \<noteq> chainId s \<or> (\<not> isGen \<and> isGenesis ?blk)
                 \<or> \<not> blockValidate E s ?blk
             then s else ethashLoaded E ?blk s"
  have put: "putBlockOrHeader E it isGen s =
           Some (Some (if commonChainId ?blk \<noteq> chainId s then ChainMismatch
                       else if \<not> isGen \<and> isGenesis ?blk then AlreadyHaveGenesis
                       else if \<not> blockValidate E s ?blk then InvalidBlock
                       else InvalidPoW), ?s1)"
    using assms by (auto simp: putBlockOrHeader_def Let_def verify_def verifyPOW_def)
  have "ethashOnly s ?s1"
    using ethashLoaded_ethashOnly[of s E ?blk] ethashOnly_refl[of s] by simp
  then have "cache ?s1 = cache s" "heads ?s1 = heads s" "headHeader ?s1 = headHeader s"
    "headBlock ?s1 = headBlock s" "\<forall>k. (\<forall>e. k \<noteq> EthashKey e) \<longrightarrow> db ?s1 k = db s k"
    unfolding ethashOnly_def by blast+
  with put show ?thesis by blast
qed

lemma blockOps_td:
  "foldl applyOp m (blockOps it isGen td)
      (TdKey (number (header (itemBlock it))) (HashOf (header (itemBlock it)))) = Some (VTd td)"
  by (simp add: blockOps_def Let_def)

lemma lookupOp_not_td: "list_all lookupOp ext \<Longrightarrow> \<forall>op \<in> set ext. opKey op \<noteq> TdKey n h"
  by (auto simp: list_all_iff lookupOp_def split: key.splits)

lemma saveHeadOps_not_td: "\<forall>op \<in> set (saveHeadOps s). opKey op \<noteq> TdKey n h"
  by (simp add: saveHeadOps_def)

lemma put_persisted_td:
  assumes "putAccepted it isGen s = Some (None, s')"
  shows "\<exists>td. getBlockTd isGen (header (itemBlock it)) s = Some td
           \<and> db s' (TdKey (number (header (itemBlock it))) (HashOf (header (itemBlock it))))
               = Some (VTd td)"
proof -
  from assms obtain currentTd td ops s1 where
    td: "getBlockTd isGen (header (itemBlock it)) s = Some td"
    and ri: "rebuildInfo it isGen td currentTd s = Some (None, ops, s1)"
    and s': "s' = dbm_batch (ops @ saveHeadOps s1) s1"
    by (rule putAccepted_success)
  from rebuildInfo_mirrored[OF ri] obtain ext where
    ext: "ops = blockOps it isGen td @ ext" "list_all lookupOp ext" "db s1 = db s"
    by blast
  let ?k = "TdKey (number (header (itemBlock it))) (HashOf (header (itemBlock it)))"
  have "db s' ?k = foldl applyOp (db s) (blockOps it isGen td @ (ext @ saveHeadOps s1)) ?k"
    unfolding s' by (simp add: ext)
  also have "\<dots> = foldl applyOp (db s) (blockOps it isGen td) ?k"
    by (rule foldl_applyOp_append_other)
       (use lookupOp_not_td[OF ext(2)] saveHeadOps_not_td in auto)
  finally show ?thesis using td by (simp add: blockOps_td)
qed

text \<open>
Claim C4. After a successful put with \<^verbatim>\<open>isGenesis\<close> set, the total difficulty stored
  for the block is its own difficulty. After a successful put without it, the total
  difficulty of \<open>(parentHash, number - 1)\<close> can be read and the total difficulty stored for
  the block is that plus its difficulty. When the parent's total difficulty cannot be read,
  the put fails and no batch is committed: the state is the one before or, when the
  proof-of-work check has run, the one Ethash has left (the state before, with the cache
  of the epoch in the store if Ethash has put it there).
\<close>

theorem put_total_difficulty:
  "(putBlockOrHeader E it True s = Some (None, s') \<longrightarrow>
      db s' (TdKey (number (header (itemBlock it))) (HashOf (header (itemBlock it))))
        = Some (VTd (difficulty (header (itemBlock it)))))
   \<and> (putBlockOrHeader E it False s = Some (None, s') \<longrightarrow>
        (\<exists>parentTd.
           getTd s (parentHash (header (itemBlock it))) (Some (number (header (itemBlock it)) - 1))
             = Some parentTd
           \<and> db s' (TdKey (number (header (itemBlock it))) (HashOf (header (itemBlock it))))
               = Some (VTd (difficulty (header (itemBlock it)) + parentTd))))
   \<and> (getTd s (parentHash (header (itemBlock it))) (Some (number (header (itemBlock it)) - 1))
         = None \<longrightarrow>
        (\<exists>e s1. putBlockOrHeader E it False s = Some (Some e, s1)
            \<and> (s1 = s \<or> s1 = ethashLoaded E (itemBlock it) s)))"
proof (intro conjI impI)
  assume "putBlockOrHeader E it True s = Some (None, s')"
  then obtain s0 where "ethashOnly s s0" "putAccepted it True s0 = Some (None, s')"
    by (rule putBlockOrHeader_success)
  from put_persisted_td[OF this(2)]
  show "db s' (TdKey (number (header (itemBlock it))) (HashOf (header (itemBlock it))))
        = Some (VTd (difficulty (header (itemBlock it))))"
    by (simp add: getBlockTd_def)
next
  assume "putBlockOrHeader E it False s = Some (None, s')"
  then obtain s0 where s0: "ethashOnly s s0" "putAccepted it False s0 = Some (None, s')"
    by (rule putBlockOrHeader_success)
  from put_persisted_td[OF s0(2)]
  show "\<exists>parentTd.
           getTd s (parentHash (header (itemBlock it))) (Some (number (header (itemBlock it)) - 1))
             = Some parentTd
           \<and> db s' (TdKey (number (header (itemBlock it))) (HashOf (header (itemBlock it))))
               = Some (VTd (difficulty (header (itemBlock it)) + parentTd))"
    by (auto simp: getBlockTd_def ethashOnly_getTd[OF s0(1)] split: option.splits)
next
  let ?blk = "itemBlock it"
  assume none: "getTd s (parentHash (header ?blk)) (Some (number (header ?blk) - 1)) = None"
  have acc: "\<exists>e. putAccepted it False s0 = Some (Some e, s0)" if "ethashOnly s s0" for s0
  proof -
    from that none have "getBlockTd False (header ?blk) s0 = None"
      by (simp add: getBlockTd_def ethashOnly_getTd[OF that])
    then show ?thesis by (simp add: putAccepted_def split: option.splits)
  qed
  from verifyPOW_cases[of E ?blk s]
  show "\<exists>e s1. putBlockOrHeader E it False s = Some (Some e, s1)
            \<and> (s1 = s \<or> s1 = ethashLoaded E ?blk s)"
  proof (elim disjE conjE)
    assume v: "verifyPOW E ?blk s = (None, s)"
    from acc[OF ethashOnly_refl] v show ?thesis
      by (auto simp: putBlockOrHeader_def Let_def split: option.splits)
  next
    assume v: "verifyPOW E ?blk s = (None, ethashLoaded E ?blk s)"
    from acc[OF ethashLoaded_ethashOnly, of E ?blk] v show ?thesis
      by (auto simp: putBlockOrHeader_def Let_def split: option.splits)
  next
    assume v: "verifyPOW E ?blk s = (Some InvalidPoW, ethashLoaded E ?blk s)"
    then show ?thesis
      by (auto simp: putBlockOrHeader_def Let_def split: option.splits)
  qed
qed

lemma rebuildInfo_wins_walks:
  assumes "rebuildInfo it isGen td currentTd s = Some (None, ops, s1)"
    and "isGenesis (itemBlock it) \<or> td > fst currentTd"
  obtains ops2 s2 where
    "deleteStaleAssignments (number (header (itemBlock it)) + 1) (HashOf (header (itemBlock it)))
        (blockOps it isGen td) (acceptHead it (cached (blockOps it isGen td) s)) = Some (None, ops2, s2)"
    "rebuildCanonical (header (itemBlock it)) ops2 s2 = Some (None, ops, s1)"
proof -
  from rebuildInfo_wins[OF assms] obtain e2 ops2 s2 where
    d: "deleteStaleAssignments (number (header (itemBlock it)) + 1) (HashOf (header (itemBlock it)))
        (blockOps it isGen td) (acceptHead it (cached (blockOps it isGen td) s)) = Some (e2, ops2, s2)"
    and err: "e2 \<noteq> None \<longrightarrow> (None, ops, s1) = (e2, ops2, s2)"
    and ok: "e2 = None \<longrightarrow> rebuildCanonical (header (itemBlock it)) ops2 s2 = Some (None, ops, s1)"
    by blast
  from err have "e2 = None" by (cases e2) auto
  with d ok that show ?thesis by simp
qed

lemma blockOps_keys:
  "\<forall>op \<in> set (blockOps it isGen td). \<not> lookupOp op \<and> opKey op \<noteq> HeadsKey
      \<and> opKey op \<noteq> HeadHeaderKey \<and> opKey op \<noteq> HeadBlockKey"
  by (simp add: blockOps_def Let_def lookupOp_def)

lemma foldl_saveHeadOps_headHeader:
  "foldl applyOp m (ops @ saveHeadOps s) HeadHeaderKey
     = Some (case headHeader s of None \<Rightarrow> VNull | Some h \<Rightarrow> VHash h)"
  by (simp add: saveHeadOps_def)

lemma putAccepted_canonical_decision:
  assumes "putAccepted it isGen s = Some (None, s')"
    and "getCurrentTd isGen s = Some currentTd"
    and "getBlockTd isGen (header (itemBlock it)) s = Some td"
  shows "(isGenesis (itemBlock it) \<or> td > fst currentTd \<longrightarrow>
            headHeader s' = Some (HashOf (header (itemBlock it)))
          \<and> db s' HeadHeaderKey = Some (VHash (HashOf (header (itemBlock it))))
          \<and> (\<exists>ops2 s2 ops3 s3.
                deleteStaleAssignments (number (header (itemBlock it)) + 1)
                    (HashOf (header (itemBlock it))) (blockOps it isGen td)
                    (acceptHead it (cached (blockOps it isGen td) s)) = Some (None, ops2, s2)
              \<and> rebuildCanonical (header (itemBlock it)) ops2 s2 = Some (None, ops3, s3)
              \<and> s' = dbm_batch (ops3 @ saveHeadOps s3) s3))
       \<and> (\<not> (isGenesis (itemBlock it) \<or> td > fst currentTd) \<longrightarrow>
            headHeader s' = headHeader s
          \<and> db s' HeadHeaderKey = Some (case headHeader s of None \<Rightarrow> VNull | Some h \<Rightarrow> VHash h)
          \<and> (\<forall>k. db s' (NumberToHashKey k) = db s (NumberToHashKey k))
          \<and> (\<forall>k. cache s' (NumberToHashKey k) = cache s (NumberToHashKey k))
          \<and> (\<forall>k. dbm_numberToHash s' k = dbm_numberToHash s k))"
proof -
  let ?hdr = "header (itemBlock it)"
  let ?b = "blockOps it isGen td"
  from assms(1) obtain currentTd' td' ops s1 where
    "getCurrentTd isGen s = Some currentTd'" "getBlockTd isGen ?hdr s = Some td'"
    and ri': "rebuildInfo it isGen td' currentTd' s = Some (None, ops, s1)"
    and s': "s' = dbm_batch (ops @ saveHeadOps s1) s1"
    by (rule putAccepted_success)
  with assms(2,3) have ri: "rebuildInfo it isGen td currentTd s = Some (None, ops, s1)" by simp
  show ?thesis
  proof (intro conjI impI)
    assume win: "isGenesis (itemBlock it) \<or> td > fst currentTd"
    from rebuildInfo_wins_walks[OF ri win] obtain ops2 s2 where
      d: "deleteStaleAssignments (number ?hdr + 1) (HashOf ?hdr) ?b (acceptHead it (cached ?b s))
            = Some (None, ops2, s2)"
      and r: "rebuildCanonical ?hdr ops2 s2 = Some (None, ops, s1)" by blast
    have "mirrored (delOp (number ?hdr + 1)) (acceptHead it (cached ?b s)) ?b s2 ops2"
      by (rule deleteStale_effect(1)[OF d])
    moreover have "mirrored (saveOp (\<lambda>w. True)) s2 ops2 s1 ops"
      using rebuildCanonical_mirrored[OF r, of "\<lambda>w. True"] by simp
    ultimately have hh: "headHeader s1 = Some (HashOf ?hdr)"
      unfolding mirrored_def by auto
    then show "headHeader s' = Some (HashOf ?hdr)" by (simp add: s')
    show "db s' HeadHeaderKey = Some (VHash (HashOf ?hdr))"
      unfolding s' by (simp add: foldl_saveHeadOps_headHeader hh del: foldl_append)
    show "\<exists>ops2 s2 ops3 s3.
            deleteStaleAssignments (number ?hdr + 1) (HashOf ?hdr) ?b (acceptHead it (cached ?b s))
              = Some (None, ops2, s2)
          \<and> rebuildCanonical ?hdr ops2 s2 = Some (None, ops3, s3)
          \<and> s' = dbm_batch (ops3 @ saveHeadOps s3) s3"
      using d r s' by blast
  next
    assume lose: "\<not> (isGenesis (itemBlock it) \<or> td > fst currentTd)"
    note l = rebuildInfo_loses[OF ri lose]
    have hh: "headHeader s1 = headHeader s" unfolding l(3) by simp
    then show "headHeader s' = headHeader s" by (simp add: s')
    show "db s' HeadHeaderKey = Some (case headHeader s of None \<Rightarrow> VNull | Some h \<Rightarrow> VHash h)"
      unfolding s' by (simp add: foldl_saveHeadOps_headHeader hh del: foldl_append)
    have keys: "\<And>k. \<forall>op \<in> set (ops @ saveHeadOps s1). opKey op \<noteq> NumberToHashKey k"
      unfolding l(2) using blockOps_keys[of it isGen td]
      by (auto simp: saveHeadOps_def lookupOp_def)
    show db: "\<forall>k. db s' (NumberToHashKey k) = db s (NumberToHashKey k)"
    proof
      fix k
      have "db s' (NumberToHashKey k) = foldl applyOp (db s1) (ops @ saveHeadOps s1) (NumberToHashKey k)"
        unfolding s' by simp
      also have "\<dots> = db s1 (NumberToHashKey k)"
        by (rule foldl_applyOp_other) (rule keys)
      also have "db s1 = db s" unfolding l(3) by simp
      finally show "db s' (NumberToHashKey k) = db s (NumberToHashKey k)" .
    qed
    show ca: "\<forall>k. cache s' (NumberToHashKey k) = cache s (NumberToHashKey k)"
    proof
      fix k
      have "cache s' (NumberToHashKey k) = foldl applyOp (cache s) ops (NumberToHashKey k)"
        unfolding s' l(3) l(2) by simp
      also have "\<dots> = cache s (NumberToHashKey k)"
        by (rule foldl_applyOp_other) (use keys[of k] in auto)
      finally show "cache s' (NumberToHashKey k) = cache s (NumberToHashKey k)" .
    qed
    show "\<forall>k. dbm_numberToHash s' k = dbm_numberToHash s k"
      using db ca by (auto intro: dbm_numberToHash_cong)
  qed
qed

text \<open>
Claim C2. A put that succeeds makes the item the new head of the header chain exactly
  when the block is genesis or its total difficulty is strictly greater than the total
  difficulty read for the current \<^verbatim>\<open>_headHeader\<close>. In that case \<^verbatim>\<open>_headHeader\<close> is
  the hash of the item (in the object and under the key \<^verbatim>\<open>headHeader\<close> of the store),
  \<^verbatim>\<open>_deleteStaleAssignments\<close> and then \<^verbatim>\<open>_rebuildCanonical\<close> have run (on the state the
  proof-of-work check has left), and their operations are the batch. Otherwise (in
  particular at equal total difficulty) \<^verbatim>\<open>_headHeader\<close> is what it was and no canonical
  assignment (number to hash) changes, in the store or in the cache: the item stays outside
  the canonical chain.
\<close>

theorem put_canonical_decision:
  assumes "putBlockOrHeader E it isGen s = Some (None, s')"
    and "getCurrentTd isGen s = Some currentTd"
    and "getBlockTd isGen (header (itemBlock it)) s = Some td"
  shows "(isGenesis (itemBlock it) \<or> td > fst currentTd \<longrightarrow>
            headHeader s' = Some (HashOf (header (itemBlock it)))
          \<and> db s' HeadHeaderKey = Some (VHash (HashOf (header (itemBlock it))))
          \<and> (\<exists>s0 ops2 s2 ops3 s3.
                verifyPOW E (itemBlock it) s = (None, s0)
              \<and> deleteStaleAssignments (number (header (itemBlock it)) + 1)
                    (HashOf (header (itemBlock it))) (blockOps it isGen td)
                    (acceptHead it (cached (blockOps it isGen td) s0)) = Some (None, ops2, s2)
              \<and> rebuildCanonical (header (itemBlock it)) ops2 s2 = Some (None, ops3, s3)
              \<and> s' = dbm_batch (ops3 @ saveHeadOps s3) s3))
       \<and> (\<not> (isGenesis (itemBlock it) \<or> td > fst currentTd) \<longrightarrow>
            headHeader s' = headHeader s
          \<and> db s' HeadHeaderKey = Some (case headHeader s of None \<Rightarrow> VNull | Some h \<Rightarrow> VHash h)
          \<and> (\<forall>k. db s' (NumberToHashKey k) = db s (NumberToHashKey k))
          \<and> (\<forall>k. cache s' (NumberToHashKey k) = cache s (NumberToHashKey k))
          \<and> (\<forall>k. dbm_numberToHash s' k = dbm_numberToHash s k))"
proof -
  from assms(1) obtain s0 where v: "verifyPOW E (itemBlock it) s = (None, s0)"
    and eo: "ethashOnly s s0" and acc: "putAccepted it isGen s0 = Some (None, s')"
    by (rule putBlockOrHeader_success)
  note f = ethashOnly_fields[OF eo]
  have cur: "getCurrentTd isGen s0 = Some currentTd"
    using assms(2) by (simp add: ethashOnly_getCurrentTd[OF eo])
  have td: "getBlockTd isGen (header (itemBlock it)) s0 = Some td"
    using assms(3) by (simp add: ethashOnly_getBlockTd[OF eo])
  note d = putAccepted_canonical_decision[OF acc cur td]
  show ?thesis
  proof (intro conjI impI)
    assume win: "isGenesis (itemBlock it) \<or> td > fst currentTd"
    with d show "headHeader s' = Some (HashOf (header (itemBlock it)))"
      and "db s' HeadHeaderKey = Some (VHash (HashOf (header (itemBlock it))))"
      by blast+
    from d win v show "\<exists>s0 ops2 s2 ops3 s3.
                verifyPOW E (itemBlock it) s = (None, s0)
              \<and> deleteStaleAssignments (number (header (itemBlock it)) + 1)
                    (HashOf (header (itemBlock it))) (blockOps it isGen td)
                    (acceptHead it (cached (blockOps it isGen td) s0)) = Some (None, ops2, s2)
              \<and> rebuildCanonical (header (itemBlock it)) ops2 s2 = Some (None, ops3, s3)
              \<and> s' = dbm_batch (ops3 @ saveHeadOps s3) s3"
      by blast
  next
    assume lose: "\<not> (isGenesis (itemBlock it) \<or> td > fst currentTd)"
    with d have l: "headHeader s' = headHeader s0"
      "db s' HeadHeaderKey = Some (case headHeader s0 of None \<Rightarrow> VNull | Some h \<Rightarrow> VHash h)"
      "\<forall>k. db s' (NumberToHashKey k) = db s0 (NumberToHashKey k)"
      "\<forall>k. cache s' (NumberToHashKey k) = cache s0 (NumberToHashKey k)"
      "\<forall>k. dbm_numberToHash s' k = dbm_numberToHash s0 k"
      by blast+
    from l(1) show "headHeader s' = headHeader s" by (simp add: f)
    from l(2) show "db s' HeadHeaderKey
        = Some (case headHeader s of None \<Rightarrow> VNull | Some h \<Rightarrow> VHash h)" by (simp add: f)
    from l(3) show "\<forall>k. db s' (NumberToHashKey k) = db s (NumberToHashKey k)" by (simp add: f)
    from l(4) show "\<forall>k. cache s' (NumberToHashKey k) = cache s (NumberToHashKey k)"
      by (simp add: f)
    from l(5) show "\<forall>k. dbm_numberToHash s' k = dbm_numberToHash s k"
      by (simp add: ethashOnly_reads[OF eo])
  qed
qed

lemma map_of_foldl_update:
  "map_of (foldl (\<lambda>hs name. AList.update name v hs) al names) x
     = (if x \<in> set names then Some v else map_of al x)"
  by (induction names arbitrary: al) (auto simp: update_conv')

text \<open>
Claim C3, amended. When \<^verbatim>\<open>_rebuildCanonical\<close> stops because the canonical assignment at
  the number of the walked header is already its hash, every iterator head flagged stale,
  and \<^verbatim>\<open>_headBlock\<close> if it is flagged stale, are set to the hash of the walked header
  at which the walk stops (the last block that was canonical before and still is), not to
  the hash of the header the put started from; the flags are cleared.
\<close>

theorem rebuildCanonical_stop_resets_to_walked_hash:
  assumes "number hdr \<noteq> 0"
    and "dbm_numberToHash s (number hdr) = Some (HashOf hdr)"
  shows "\<exists>s'. rebuildCanonical hdr ops s = Some (None, ops, s')
       \<and> (\<forall>name. map_of (heads s') name
             = (if name \<in> set (case staleHeads s of None \<Rightarrow> [] | Some l \<Rightarrow> l)
                then Some (HashOf hdr) else map_of (heads s) name))
       \<and> headBlock s' = (if staleHeadBlock s then Some (HashOf hdr) else headBlock s)
       \<and> staleHeads s' = None \<and> \<not> staleHeadBlock s'"
proof -
  from assms have "rebuildStep hdr ops s = Return None ops (resetStaleHeads (HashOf hdr) s)"
    by (simp add: rebuildStep_def Let_def)
  then have "rebuildCanonical hdr ops s = Some (None, ops, resetStaleHeads (HashOf hdr) s)"
    by (simp add: rebuildCanonical.simps[of hdr ops s])
  moreover have "\<forall>name. map_of (heads (resetStaleHeads (HashOf hdr) s)) name
             = (if name \<in> set (case staleHeads s of None \<Rightarrow> [] | Some l \<Rightarrow> l)
                then Some (HashOf hdr) else map_of (heads s) name)"
    by (simp add: resetStaleHeads_def map_of_foldl_update)
  ultimately show ?thesis by simp
qed

subsection \<open>More on operations applied to a map\<close>

lemma applyOp_same: "opKey op = k \<Longrightarrow> applyOp m op k = opEffect op"
  by (cases op) simp_all

lemma foldl_applyOp_cases:
  "foldl applyOp m ops k = m k
   \<or> (\<exists>op \<in> set ops. opKey op = k \<and> foldl applyOp m ops k = opEffect op)"
proof (induction ops rule: rev_induct)
  case Nil
  show ?case by simp
next
  case (snoc op ops)
  show ?case
  proof (cases "opKey op = k")
    case True
    then show ?thesis by (simp add: applyOp_same)
  next
    case False
    with snoc show ?thesis by (auto simp: applyOp_other)
  qed
qed

lemma foldl_applyOp_all_same:
  assumes "\<exists>op \<in> set ops. opKey op = k"
    and "\<forall>op \<in> set ops. opKey op = k \<longrightarrow> opEffect op = r"
  shows "foldl applyOp m ops k = r"
  using assms
proof (induction ops rule: rev_induct)
  case Nil
  then show ?case by simp
next
  case (snoc op ops)
  show ?case
  proof (cases "opKey op = k")
    case True
    with snoc.prems(2) show ?thesis by (simp add: applyOp_same)
  next
    case False
    with snoc show ?thesis by (auto simp: applyOp_other)
  qed
qed

lemma foldl_applyOp_le:
  assumes "\<And>k v. c k = Some v \<Longrightarrow> d k = Some v"
  shows "foldl applyOp c ops k = Some v \<Longrightarrow> foldl applyOp d ops k = Some v"
  using assms
proof (induction ops arbitrary: c d)
  case Nil
  then show ?case by simp
next
  case (Cons op ops)
  have "\<And>k v. applyOp c op k = Some v \<Longrightarrow> applyOp d op k = Some v"
    using Cons.prems(2) by (cases op) (auto split: if_splits)
  from Cons.IH[OF _ this] Cons.prems(1) show ?case by simp
qed

lemma foldl_applyOp_idem:
  assumes "\<forall>op \<in> set ops. opEffect op = m (opKey op)"
  shows "foldl applyOp m ops = m"
  using assms
proof (induction ops)
  case Nil
  show ?case by simp
next
  case (Cons op ops)
  from Cons.prems have "applyOp m op = m"
    by (cases op) (auto simp: fun_eq_iff)
  with Cons show ?case by simp
qed

subsection \<open>The walk of rebuildCanonical and headBlock\<close>

lemma rebuildStep_Return_headBlock:
  assumes "rebuildStep hdr ops s = Return e ops1 s1"
  shows "headBlock s1 = headBlock s \<or> headBlock s1 = Some (HashOf hdr)"
  using assms
  by (auto simp: rebuildStep_def Let_def split: if_splits option.splits)

lemma rebuildCanonical_headBlock_aux:
  "rebuildCanonical hdr ops s = Some r \<Longrightarrow> R hdr
     \<Longrightarrow> (\<And>h m w. dbm_getHeader s h m = Some w \<Longrightarrow> R w)
     \<Longrightarrow> headBlock (snd (snd r)) = headBlock s
         \<or> (\<exists>w. R w \<and> headBlock (snd (snd r)) = Some (HashOf w))"
proof (induction rule: rebuildCanonical.raw_induct[rotated 1, consumes 1])
  case (1 rc hdr ops s r)
  show ?case
  proof (cases "rebuildStep hdr ops s")
    case (Return e ops1 s1)
    with 1(2) have r: "r = (e, ops1, s1)" by simp
    from rebuildStep_Return_headBlock[OF Return] 1(3) show ?thesis unfolding r by auto
  next
    case (Continue parent ops1 s1)
    note c = rebuildStep_Continue[OF Continue]
    from 1(2) Continue have call: "rc parent ops1 s1 = Some r" by simp
    have Rp: "R parent" using c(3) 1(4) by blast
    have reads: "\<And>h m w. dbm_getHeader s1 h m = Some w \<Longrightarrow> R w"
    proof -
      fix h m w assume a: "dbm_getHeader s1 h m = Some w"
      have "dbm_getHeader s1 h m = dbm_getHeader s h m"
        by (rule dbm_getHeader_cong) (simp_all add: c lookupOps_def)
      with a 1(4) show "R w" by auto
    qed
    from 1(1)[OF call Rp reads] c(12) show ?thesis by simp
  qed
qed

lemma rebuildCanonical_headBlock:
  assumes "rebuildCanonical hdr ops s = Some (e, ops', s')" and "R hdr"
    and "\<And>h m w. dbm_getHeader s h m = Some w \<Longrightarrow> R w"
  shows "headBlock s' = headBlock s \<or> (\<exists>w. R w \<and> headBlock s' = Some (HashOf w))"
  using rebuildCanonical_headBlock_aux[OF assms(1), of R] assms(2,3) by simp

lemma saveHeadOps_cong:
  "heads s' = heads s \<Longrightarrow> headHeader s' = headHeader s \<Longrightarrow> headBlock s' = headBlock s
     \<Longrightarrow> saveHeadOps s' = saveHeadOps s"
  by (simp add: saveHeadOps_def)

lemma mirrored_delOp_getHeader:
  assumes "mirrored (delOp lo) s ops s' ops'"
  shows "dbm_getHeader s' h m = dbm_getHeader s h m"
proof -
  from assms obtain ext where e: "cache s' = foldl applyOp (cache s) ext"
    "list_all (delOp lo) ext" "db s' = db s" unfolding mirrored_def by blast
  have "\<forall>op \<in> set ext. opKey op \<noteq> HeaderKey m h"
    using e(2) by (auto simp: list_all_iff delOp_def)
  then have "cache s' (HeaderKey m h) = cache s (HeaderKey m h)"
    unfolding e(1) by (rule foldl_applyOp_other)
  then show ?thesis using e(3) by (intro dbm_getHeader_cong) simp_all
qed

lemma mirrored_delOp_numberToHash:
  assumes "mirrored (delOp lo) s ops s' ops'" and "k < lo"
  shows "dbm_numberToHash s' k = dbm_numberToHash s k"
proof -
  from assms obtain ext where e: "cache s' = foldl applyOp (cache s) ext"
    "list_all (delOp lo) ext" "db s' = db s" unfolding mirrored_def by blast
  have "\<forall>op \<in> set ext. opKey op \<noteq> NumberToHashKey k"
    using e(2) assms(2) by (auto simp: list_all_iff delOp_def)
  then have "cache s' (NumberToHashKey k) = cache s (NumberToHashKey k)"
    unfolding e(1) by (rule foldl_applyOp_other)
  then show ?thesis using e(3) by (intro dbm_numberToHash_cong) simp_all
qed

lemma rebuildCanonical_first:
  assumes "rebuildCanonical hdr ops s = Some (e, ops', s')"
  shows "(number hdr \<noteq> 0 \<and> dbm_numberToHash s (number hdr) = Some (HashOf hdr))
       \<or> (\<exists>ext'. ops' = ops @ lookupOps (HashOf hdr) (number hdr) @ ext')"
proof (cases "rebuildStep hdr ops s")
  case (Return e1 ops1 s1)
  with assms have "ops' = ops1" by (simp add: rebuildCanonical.simps[of hdr ops s])
  with Return show ?thesis
    by (auto simp: rebuildStep_def Let_def split: if_splits option.splits)
next
  case (Continue parent ops1 s1)
  note c = rebuildStep_Continue[OF Continue]
  from assms Continue have "rebuildCanonical parent ops1 s1 = Some (e, ops', s')"
    by (simp add: rebuildCanonical.simps[of hdr ops s])
  from rebuildCanonical_mirrored[OF this, of "\<lambda>w. True"]
  obtain ext' where "ops' = ops1 @ ext'" unfolding mirrored_def by auto
  with c(4) show ?thesis by simp
qed

lemma put_effect:
  assumes put: "putAccepted it isGen s = Some (None, s')"
    and cur: "getCurrentTd isGen s = Some currentTd"
    and td: "getBlockTd isGen (header (itemBlock it)) s = Some td"
    and R0: "R (header (itemBlock it))"
    and R: "\<And>h m w. dbm_getHeader (cached (blockOps it isGen td) s) h m = Some w \<Longrightarrow> R w"
  shows "\<exists>ext. list_all (putOp (number (header (itemBlock it)) + 1) R) ext
      \<and> (dbm_numberToHash s (number (header (itemBlock it))) = Some (HashOf (header (itemBlock it)))
          \<or> Put (HashToNumberKey (HashOf (header (itemBlock it))))
                 (VNumber (number (header (itemBlock it)))) \<in> set ext)
      \<and> cache s' = foldl applyOp (cache s) (blockOps it isGen td @ ext)
      \<and> db s' = foldl applyOp (db s) (blockOps it isGen td @ ext @ saveHeadOps s')
      \<and> headHeader s' = (if isGenesis (itemBlock it) \<or> td > fst currentTd
                          then Some (HashOf (header (itemBlock it))) else headHeader s)
      \<and> (headBlock s' = headBlock s \<or> (\<exists>w. R w \<and> headBlock s' = Some (HashOf w)))
      \<and> chainId s' = chainId s \<and> validate s' = validate s
      \<and> (\<not> (isGenesis (itemBlock it) \<or> td > fst currentTd) \<longrightarrow>
            ext = [Put (HashToNumberKey (HashOf (header (itemBlock it))))
                       (VNumber (number (header (itemBlock it))))]
          \<and> heads s' = heads s \<and> staleHeads s' = staleHeads s
          \<and> staleHeadBlock s' = staleHeadBlock s \<and> genesis s' = genesis s
          \<and> headBlock s' = (if td > snd currentTd \<and> \<not> isHeader it
                             then Some (HashOf (header (itemBlock it))) else headBlock s))"
proof -
  let ?hdr = "header (itemBlock it)"
  let ?b = "blockOps it isGen td"
  let ?win = "isGenesis (itemBlock it) \<or> td > fst currentTd"
  from put obtain currentTd' td' ops s1 where
    "getCurrentTd isGen s = Some currentTd'" "getBlockTd isGen ?hdr s = Some td'"
    and ri': "rebuildInfo it isGen td' currentTd' s = Some (None, ops, s1)"
    and s': "s' = dbm_batch (ops @ saveHeadOps s1) s1"
    by (rule putAccepted_success)
  with cur td have ri: "rebuildInfo it isGen td currentTd s = Some (None, ops, s1)" by simp
  have sh: "saveHeadOps s' = saveHeadOps s1" unfolding s' by (rule saveHeadOps_cong) simp_all
  show ?thesis
  proof (cases ?win)
    case False
    note l = rebuildInfo_loses[OF ri False]
    let ?e = "[Put (HashToNumberKey (HashOf ?hdr)) (VNumber (number ?hdr))]"
    have "list_all (putOp (number ?hdr + 1) R) ?e" using R0 by (auto simp: putOp_def saveOp_def)
    moreover have "cache s' = foldl applyOp (cache s) (?b @ ?e)" unfolding s' l(3) by simp
    moreover have "db s' = foldl applyOp (db s) (?b @ ?e @ saveHeadOps s')"
      unfolding sh unfolding s' l(2) l(3) by simp
    moreover have "headHeader s' = headHeader s" "chainId s' = chainId s"
      "validate s' = validate s" "heads s' = heads s" "staleHeads s' = staleHeads s"
      "staleHeadBlock s' = staleHeadBlock s" "genesis s' = genesis s"
      "headBlock s' = (if td > snd currentTd \<and> \<not> isHeader it then Some (HashOf ?hdr)
                       else headBlock s)"
      unfolding s' l(3) by simp_all
    ultimately show ?thesis using False R0 by (intro exI[of _ ?e]) auto
  next
    case True
    let ?s0 = "acceptHead it (cached ?b s)"
    from rebuildInfo_wins_walks[OF ri True] obtain ops2 s2 where
      d: "deleteStaleAssignments (number ?hdr + 1) (HashOf ?hdr) ?b ?s0 = Some (None, ops2, s2)"
      and r: "rebuildCanonical ?hdr ops2 s2 = Some (None, ops, s1)" by blast
    note de = deleteStale_effect[OF d]
    have reads0: "\<And>h m. dbm_getHeader ?s0 h m = dbm_getHeader (cached ?b s) h m"
      by (rule dbm_getHeader_cong) simp_all
    have reads2: "\<And>h m w. dbm_getHeader s2 h m = Some w \<Longrightarrow> R w"
      using mirrored_delOp_getHeader[OF de(1)] reads0 R by simp
    have m1: "mirrored (putOp (number ?hdr + 1) R) ?s0 ?b s2 ops2"
      using de(1) by (rule mirrored_mono) (simp add: putOp_def)
    have "mirrored (saveOp R) s2 ops2 s1 ops"
      using r R0 reads2 by (rule rebuildCanonical_mirrored)
    then have m2: "mirrored (putOp (number ?hdr + 1) R) s2 ops2 s1 ops"
      by (rule mirrored_mono) (simp add: putOp_def)
    from mirrored_trans[OF m1 m2] obtain ext where
      e: "ops = ?b @ ext" "cache s1 = foldl applyOp (cache ?s0) ext"
      "list_all (putOp (number ?hdr + 1) R) ext"
      "db s1 = db ?s0" "headHeader s1 = headHeader ?s0" "chainId s1 = chainId ?s0"
      "validate s1 = validate ?s0"
      unfolding mirrored_def by blast
    have top: "dbm_numberToHash s (number ?hdr) = Some (HashOf ?hdr)
          \<or> Put (HashToNumberKey (HashOf ?hdr)) (VNumber (number ?hdr)) \<in> set ext"
    proof -
      from de(1) obtain e1 where e1: "ops2 = ?b @ e1" unfolding mirrored_def by blast
      have n2: "dbm_numberToHash s2 (number ?hdr) = dbm_numberToHash ?s0 (number ?hdr)"
        using de(1) by (rule mirrored_delOp_numberToHash) simp
      have "\<forall>op \<in> set ?b. opKey op \<noteq> NumberToHashKey (number ?hdr)"
        using blockOps_keys[of it isGen td] by (auto simp: lookupOp_def)
      then have "cache ?s0 (NumberToHashKey (number ?hdr)) = cache s (NumberToHashKey (number ?hdr))"
        by (simp add: foldl_applyOp_other)
      then have n0: "dbm_numberToHash ?s0 (number ?hdr) = dbm_numberToHash s (number ?hdr)"
        by (intro dbm_numberToHash_cong) simp_all
      from rebuildCanonical_first[OF r] show ?thesis
      proof
        assume "number ?hdr \<noteq> 0 \<and> dbm_numberToHash s2 (number ?hdr) = Some (HashOf ?hdr)"
        with n2 n0 show ?thesis by simp
      next
        assume "\<exists>ext'. ops = ops2 @ lookupOps (HashOf ?hdr) (number ?hdr) @ ext'"
        then obtain ext' where "ops = ?b @ e1 @ lookupOps (HashOf ?hdr) (number ?hdr) @ ext'"
          using e1 by auto
        with e(1) have "ext = e1 @ lookupOps (HashOf ?hdr) (number ?hdr) @ ext'" by simp
        then show ?thesis by (simp add: lookupOps_def)
      qed
    qed
    have hb1: "headBlock s1 = headBlock s2 \<or> (\<exists>w. R w \<and> headBlock s1 = Some (HashOf w))"
      using r R0 reads2 by (rule rebuildCanonical_headBlock)
    have hb0: "headBlock ?s0 = headBlock s \<or> headBlock ?s0 = Some (HashOf ?hdr)" by simp
    from hb1 de(2) hb0 R0
    have hb: "headBlock s1 = headBlock s \<or> (\<exists>w. R w \<and> headBlock s1 = Some (HashOf w))"
      by auto
    have "cache s' = foldl applyOp (cache s) (?b @ ext)" unfolding s' by (simp add: e)
    moreover have "db s' = foldl applyOp (db s) (?b @ ext @ saveHeadOps s')"
      unfolding sh unfolding s' by (simp add: e)
    moreover have "headHeader s' = Some (HashOf ?hdr)" "chainId s' = chainId s"
      "validate s' = validate s"
      unfolding s' by (simp_all add: e)
    moreover have "headBlock s' = headBlock s \<or> (\<exists>w. R w \<and> headBlock s' = Some (HashOf w))"
      unfolding s' using hb by simp
    ultimately show ?thesis using True e(3) top by (intro exI[of _ ext]) auto
  qed
qed

subsection \<open>Reads of a well-formed store\<close>

lemma cacheOK_dbGet: "cacheOK s \<Longrightarrow> dbGet s k = db s k"
  by (auto simp: cacheOK_def dbGet_def split: option.splits)

lemma stored_header:
  assumes "headersOK s" "stored s w"
  shows "\<exists>t. db s (TdKey (number w) (HashOf w)) = Some (VTd t)"
    and "db s (HashToNumberKey (HashOf w)) = Some (VNumber (number w))"
  using assms unfolding headersOK_def stored_def by blast+

lemma header_at:
  assumes "headersOK s" "db s (HeaderKey n h) = Some v"
  shows "\<exists>w. v = VHeader w \<and> h = HashOf w \<and> n = number w \<and> stored s w"
  using assms unfolding headersOK_def stored_def by blast

lemma wf_getHeader:
  assumes "cacheOK s" "headersOK s" "dbm_getHeader s h m = Some w"
  shows "h = HashOf w \<and> m = number w \<and> stored s w"
proof -
  from assms(1,3) have "db s (HeaderKey m h) = Some (VHeader w)"
    by (auto simp: dbm_getHeader_def cacheOK_dbGet split: option.splits val.splits)
  from header_at[OF assms(2) this] show ?thesis by auto
qed

lemma wf_getTd_None:
  assumes "cacheOK s" "headersOK s" "stored s w"
  shows "getTd s (HashOf w) None
           = (case db s (TdKey (number w) (HashOf w)) of Some (VTd t) \<Rightarrow> Some t | _ \<Rightarrow> None)"
  using stored_header(2)[OF assms(2,3)] assms(1)
  by (simp add: getTd_def lookupByHashNumber_def dbm_hashToNumber_def dbm_getTd_def cacheOK_dbGet)

lemma wf_getTd_Some:
  assumes "cacheOK s"
  shows "getTd s h (Some m)
           = (case db s (TdKey m h) of Some (VTd t) \<Rightarrow> Some t | _ \<Rightarrow> None)"
  using assms by (simp add: getTd_def lookupByHashNumber_def dbm_getTd_def cacheOK_dbGet)

lemma wf_getCurrentTd:
  assumes "wellFormed s" "getCurrentTd False s = Some currentTd"
  shows "\<exists>wh. headHeader s = Some (HashOf wh) \<and> stored s wh
           \<and> db s (TdKey (number wh) (HashOf wh)) = Some (VTd (fst currentTd))
           \<and> (\<forall>n h t. db s (TdKey n h) = Some (VTd t) \<longrightarrow> t \<le> fst currentTd)"
proof -
  from assms(1) have c: "cacheOK s" and h: "headersOK s" and hd: "headsOK s"
    by (simp_all add: wellFormed_def)
  from hd obtain wh wb T where w: "headHeader s = Some (HashOf wh)" "stored s wh"
    "db s (TdKey (number wh) (HashOf wh)) = Some (VTd T)"
    "\<forall>n h t. db s (TdKey n h) = Some (VTd t) \<longrightarrow> t \<le> T"
    unfolding headsOK_def by blast
  have "getTd s (HashOf wh) None = Some T"
    using wf_getTd_None[OF c h w(2)] w(3) by simp
  with assms(2) w(1) have "fst currentTd = T"
    by (auto simp: getCurrentTd_def split: option.splits)
  with w show ?thesis by blast
qed

lemma wf_getBlockTd:
  assumes "cacheOK s" "getBlockTd False hdr s = Some td"
  shows "\<exists>pt. db s (TdKey (number hdr - 1) (parentHash hdr)) = Some (VTd pt)
           \<and> td = difficulty hdr + pt"
  using assms
  by (auto simp: getBlockTd_def wf_getTd_Some split: option.splits val.splits)

text \<open>The total difficulty stored for a header is determined by the header.\<close>

lemma td_determined:
  assumes "headersOK s" "tdsOK s" "db s (TdKey (number hdr) (HashOf hdr)) = Some v"
    and "number hdr \<noteq> 0"
    and "db s (TdKey (number hdr - 1) (parentHash hdr)) = Some (VTd pt)"
  shows "v = VTd (difficulty hdr + pt)"
proof -
  from assms(2,3,4) obtain w t pt' where
    w: "v = VTd t" "db s (HeaderKey (number hdr) (HashOf hdr)) = Some (VHeader w)"
    "db s (TdKey (number hdr - 1) (parentHash w)) = Some (VTd pt')" "t = difficulty w + pt'"
    unfolding tdsOK_def by blast
  from header_at[OF assms(1) w(2)] have "w = hdr" by auto
  with w assms(5) show ?thesis by simp
qed

text \<open>A put without the genesis flag whose parent total difficulty can be read is not the put
  of a genesis block: nothing is stored at number \<open>- 1\<close>.\<close>

lemma wf_getBlockTd_number:
  assumes "cacheOK s" "headersOK s" "tdsOK s" "getBlockTd False hdr s = Some td"
  shows "number hdr \<noteq> 0"
proof
  assume z: "number hdr = 0"
  from wf_getBlockTd[OF assms(1,4)] z obtain pt where
    "db s (TdKey (- 1) (parentHash hdr)) = Some (VTd pt)" by auto
  with assms(3) obtain w where "db s (HeaderKey (- 1) (parentHash hdr)) = Some (VHeader w)"
    unfolding tdsOK_def by blast
  with assms(2) have "(0::int) \<le> - 1" unfolding headersOK_def by blast
  then show False by simp
qed

text \<open>The invariants do not depend on the entries of Ethash.\<close>

lemma wellFormed_ethashOnly:
  assumes "wellFormed s" "ethashOnly s s0"
  shows "wellFormed s0"
proof -
  note f = ethashOnly_fields[OF assms(2)]
  from assms(1) have c: "cacheOK s" and h: "headersOK s" and t: "tdsOK s" and cn: "canonOK s"
    and lk: "lookupsOK s" and hd: "headsOK s"
    by (simp_all add: wellFormed_def)
  have st: "stored s0 w = stored s w" for w by (simp add: stored_def f)
  have "cacheOK s0"
    unfolding cacheOK_def
  proof (intro allI impI)
    fix k v assume "cache s0 k = Some v"
    with f(1) c have k: "db s k = Some v" "k \<noteq> HeadsKey" "k \<noteq> HeadHeaderKey"
      "k \<noteq> HeadBlockKey" "\<forall>e. k \<noteq> EthashKey e"
      unfolding cacheOK_def by auto
    from k(5) assms(2) have "db s0 k = db s k" unfolding ethashOnly_def by blast
    with k show "db s0 k = Some v \<and> k \<noteq> HeadsKey \<and> k \<noteq> HeadHeaderKey \<and> k \<noteq> HeadBlockKey
        \<and> (\<forall>e. k \<noteq> EthashKey e)" by simp
  qed
  moreover have "headersOK s0" using h unfolding headersOK_def f .
  moreover have "tdsOK s0" using t unfolding tdsOK_def f .
  moreover have "canonOK s0" using cn unfolding canonOK_def f st .
  moreover have "lookupsOK s0" using lk unfolding lookupsOK_def f st .
  moreover have "headsOK s0" using hd unfolding headsOK_def f st .
  ultimately show ?thesis by (simp add: wellFormed_def)
qed

lemma batchOp_cases:
  assumes "batchOp hdr td lo R op"
  obtains "op = Put (TdKey (number hdr) (HashOf hdr)) (VTd td)"
  | "op = Put (HeaderKey (number hdr) (HashOf hdr)) (VHeader hdr)"
  | body where "op = Put (BodyKey (number hdr) (HashOf hdr)) body"
  | m where "lo \<le> m" "op = Del (NumberToHashKey m)"
  | w where "R w" "op = Put (NumberToHashKey (number w)) (VHash (HashOf w))"
  | w where "R w" "op = Put (HashToNumberKey (HashOf w)) (VNumber (number w))"
  | "opKey op = HeadsKey" | "opKey op = HeadHeaderKey" | "opKey op = HeadBlockKey"
  using assms unfolding batchOp_def blockOp_def putOp_def delOp_def saveOp_def headOp_def
  by blast

lemma blockOps_blockOp:
  "list_all (blockOp (header (itemBlock it)) td) (blockOps it isGen td)"
  by (simp add: blockOps_def Let_def blockOp_def)

lemma saveHeadOps_headOp: "list_all headOp (saveHeadOps s)"
  by (simp add: saveHeadOps_def headOp_def)

lemma batch_td:
  assumes "list_all (batchOp hdr td lo R) ops"
  shows "foldl applyOp m ops (TdKey a h) = m (TdKey a h)
       \<or> (a = number hdr \<and> h = HashOf hdr \<and> foldl applyOp m ops (TdKey a h) = Some (VTd td))"
proof -
  from foldl_applyOp_cases[of m ops "TdKey a h"] show ?thesis
  proof
    assume "\<exists>op \<in> set ops. opKey op = TdKey a h \<and> foldl applyOp m ops (TdKey a h) = opEffect op"
    then obtain op where op: "op \<in> set ops" "opKey op = TdKey a h"
      "foldl applyOp m ops (TdKey a h) = opEffect op" by blast
    from assms op(1) have "batchOp hdr td lo R op" by (simp add: list_all_iff)
    then show ?thesis using op(2,3) by (cases rule: batchOp_cases) auto
  qed simp
qed

lemma batch_td_written:
  assumes "list_all (batchOp hdr td lo R) ops"
    and "Put (TdKey (number hdr) (HashOf hdr)) (VTd td) \<in> set ops"
  shows "foldl applyOp m ops (TdKey (number hdr) (HashOf hdr)) = Some (VTd td)"
proof (rule foldl_applyOp_all_same)
  show "\<exists>op \<in> set ops. opKey op = TdKey (number hdr) (HashOf hdr)"
    using assms(2) by force
  show "\<forall>op \<in> set ops. opKey op = TdKey (number hdr) (HashOf hdr) \<longrightarrow> opEffect op = Some (VTd td)"
  proof (intro ballI impI)
    fix op assume op: "op \<in> set ops" "opKey op = TdKey (number hdr) (HashOf hdr)"
    from assms(1) op(1) have "batchOp hdr td lo R op" by (simp add: list_all_iff)
    then show "opEffect op = Some (VTd td)" using op(2) by (cases rule: batchOp_cases) auto
  qed
qed

lemma batch_header:
  assumes "list_all (batchOp hdr td lo R) ops"
  shows "foldl applyOp m ops (HeaderKey a h) = m (HeaderKey a h)
       \<or> (a = number hdr \<and> h = HashOf hdr
            \<and> foldl applyOp m ops (HeaderKey a h) = Some (VHeader hdr))"
proof -
  from foldl_applyOp_cases[of m ops "HeaderKey a h"] show ?thesis
  proof
    assume "\<exists>op \<in> set ops. opKey op = HeaderKey a h
              \<and> foldl applyOp m ops (HeaderKey a h) = opEffect op"
    then obtain op where op: "op \<in> set ops" "opKey op = HeaderKey a h"
      "foldl applyOp m ops (HeaderKey a h) = opEffect op" by blast
    from assms op(1) have "batchOp hdr td lo R op" by (simp add: list_all_iff)
    then show ?thesis using op(2,3) by (cases rule: batchOp_cases) auto
  qed simp
qed

lemma batch_header_written:
  assumes "list_all (batchOp hdr td lo R) ops"
    and "Put (HeaderKey (number hdr) (HashOf hdr)) (VHeader hdr) \<in> set ops"
  shows "foldl applyOp m ops (HeaderKey (number hdr) (HashOf hdr)) = Some (VHeader hdr)"
proof (rule foldl_applyOp_all_same)
  show "\<exists>op \<in> set ops. opKey op = HeaderKey (number hdr) (HashOf hdr)"
    using assms(2) by force
  show "\<forall>op \<in> set ops. opKey op = HeaderKey (number hdr) (HashOf hdr)
          \<longrightarrow> opEffect op = Some (VHeader hdr)"
  proof (intro ballI impI)
    fix op assume op: "op \<in> set ops" "opKey op = HeaderKey (number hdr) (HashOf hdr)"
    from assms(1) op(1) have "batchOp hdr td lo R op" by (simp add: list_all_iff)
    then show "opEffect op = Some (VHeader hdr)" using op(2) by (cases rule: batchOp_cases) auto
  qed
qed

lemma batch_hashToNumber:
  assumes "list_all (batchOp hdr td lo R) ops"
  shows "foldl applyOp m ops (HashToNumberKey h) = m (HashToNumberKey h)
       \<or> (\<exists>w. R w \<and> h = HashOf w
              \<and> foldl applyOp m ops (HashToNumberKey h) = Some (VNumber (number w)))"
proof -
  from foldl_applyOp_cases[of m ops "HashToNumberKey h"] show ?thesis
  proof
    assume "\<exists>op \<in> set ops. opKey op = HashToNumberKey h
              \<and> foldl applyOp m ops (HashToNumberKey h) = opEffect op"
    then obtain op where op: "op \<in> set ops" "opKey op = HashToNumberKey h"
      "foldl applyOp m ops (HashToNumberKey h) = opEffect op" by blast
    from assms op(1) have "batchOp hdr td lo R op" by (simp add: list_all_iff)
    then show ?thesis using op(2,3) by (cases rule: batchOp_cases) auto
  qed simp
qed

lemma batch_hashToNumber_written:
  assumes "list_all (batchOp hdr td lo R) ops"
    and "Put (HashToNumberKey (HashOf hdr)) (VNumber (number hdr)) \<in> set ops"
  shows "foldl applyOp m ops (HashToNumberKey (HashOf hdr)) = Some (VNumber (number hdr))"
proof (rule foldl_applyOp_all_same)
  show "\<exists>op \<in> set ops. opKey op = HashToNumberKey (HashOf hdr)"
    using assms(2) by force
  show "\<forall>op \<in> set ops. opKey op = HashToNumberKey (HashOf hdr)
          \<longrightarrow> opEffect op = Some (VNumber (number hdr))"
  proof (intro ballI impI)
    fix op assume op: "op \<in> set ops" "opKey op = HashToNumberKey (HashOf hdr)"
    from assms(1) op(1) have "batchOp hdr td lo R op" by (simp add: list_all_iff)
    then show "opEffect op = Some (VNumber (number hdr))" using op(2)
      by (cases rule: batchOp_cases) auto
  qed
qed

lemma batch_numberToHash:
  assumes "list_all (batchOp hdr td lo R) ops"
  shows "foldl applyOp m ops (NumberToHashKey k) = m (NumberToHashKey k)
       \<or> foldl applyOp m ops (NumberToHashKey k) = None
       \<or> (\<exists>w. R w \<and> k = number w
              \<and> foldl applyOp m ops (NumberToHashKey k) = Some (VHash (HashOf w)))"
proof -
  from foldl_applyOp_cases[of m ops "NumberToHashKey k"] show ?thesis
  proof
    assume "\<exists>op \<in> set ops. opKey op = NumberToHashKey k
              \<and> foldl applyOp m ops (NumberToHashKey k) = opEffect op"
    then obtain op where op: "op \<in> set ops" "opKey op = NumberToHashKey k"
      "foldl applyOp m ops (NumberToHashKey k) = opEffect op" by blast
    from assms op(1) have "batchOp hdr td lo R op" by (simp add: list_all_iff)
    then show ?thesis using op(2,3) by (cases rule: batchOp_cases) auto
  qed simp
qed

lemma not_headOp:
  assumes "blockOp hdr td op \<or> putOp lo R op"
  shows "opKey op \<noteq> HeadsKey \<and> opKey op \<noteq> HeadHeaderKey \<and> opKey op \<noteq> HeadBlockKey"
  using assms unfolding blockOp_def putOp_def delOp_def saveOp_def
  by (elim disjE exE conjE bexE) simp_all

lemma batch_head_keys:
  assumes "list_all (\<lambda>op. blockOp hdr td op \<or> putOp lo R op) ops"
  shows "foldl applyOp m ops HeadsKey = m HeadsKey"
    "foldl applyOp m ops HeadHeaderKey = m HeadHeaderKey"
    "foldl applyOp m ops HeadBlockKey = m HeadBlockKey"
proof -
  have "\<forall>op \<in> set ops. opKey op \<noteq> HeadsKey \<and> opKey op \<noteq> HeadHeaderKey \<and> opKey op \<noteq> HeadBlockKey"
    using assms not_headOp[of hdr td _ lo R] by (simp add: list_all_iff)
  then show "foldl applyOp m ops HeadsKey = m HeadsKey"
    "foldl applyOp m ops HeadHeaderKey = m HeadHeaderKey"
    "foldl applyOp m ops HeadBlockKey = m HeadBlockKey"
    by (simp_all add: foldl_applyOp_other)
qed

lemma not_ethashOp:
  assumes "blockOp hdr td op \<or> putOp lo R op"
  shows "opKey op \<noteq> EthashKey e"
  using assms unfolding blockOp_def putOp_def delOp_def saveOp_def
  by (elim disjE exE conjE bexE) simp_all

lemma batch_ethash_key:
  assumes "list_all (\<lambda>op. blockOp hdr td op \<or> putOp lo R op) ops"
  shows "foldl applyOp m ops (EthashKey e) = m (EthashKey e)"
proof -
  have "\<forall>op \<in> set ops. opKey op \<noteq> EthashKey e"
    using assms not_ethashOp[of hdr td _ lo R e] by (simp add: list_all_iff)
  then show ?thesis by (rule foldl_applyOp_other)
qed

lemma cached_blockOps_getHeader:
  assumes "cacheOK s" "headersOK s"
    and "dbm_getHeader (cached (blockOps it isGen td) s) h m = Some w"
  shows "w = header (itemBlock it) \<or> stored s w"
proof -
  let ?hdr = "header (itemBlock it)"
  let ?c = "foldl applyOp (cache s) (blockOps it isGen td)"
  have bo: "list_all (batchOp ?hdr td 0 (\<lambda>w. False)) (blockOps it isGen td)"
    using blockOps_blockOp[of it td isGen] by (simp add: list_all_iff batchOp_def)
  from batch_header[OF bo, of "cache s" m h]
  show ?thesis
  proof
    assume same: "?c (HeaderKey m h) = cache s (HeaderKey m h)"
    have "dbm_getHeader (cached (blockOps it isGen td) s) h m = dbm_getHeader s h m"
      by (rule dbm_getHeader_cong) (simp_all add: same)
    with assms(3) wf_getHeader[OF assms(1,2)] show ?thesis by auto
  next
    assume "m = number ?hdr \<and> h = HashOf ?hdr \<and> ?c (HeaderKey m h) = Some (VHeader ?hdr)"
    then have "dbGet (cached (blockOps it isGen td) s) (HeaderKey m h) = Some (VHeader ?hdr)"
      by (auto simp: dbGet_def)
    with assms(3) show ?thesis by (simp add: dbm_getHeader_def)
  qed
qed

lemma wf_numberToHash:
  assumes "cacheOK s" "dbm_numberToHash s k = Some x"
  shows "db s (NumberToHashKey k) = Some (VHash x)"
proof (cases "db s (NumberToHashKey k)")
  case None
  with assms show ?thesis by (simp add: dbm_numberToHash_def cacheOK_dbGet)
next
  case (Some v)
  with assms show ?thesis by (cases v) (simp_all add: dbm_numberToHash_def cacheOK_dbGet)
qed

text \<open>A successful put without the genesis flag keeps the invariants of the store.\<close>

lemma put_preserves:
  assumes wf: "wellFormed s"
    and put: "putAccepted it False s = Some (None, s')"
  shows "wellFormed s'"
    and "\<And>a x v. db s (TdKey a x) = Some v \<Longrightarrow> db s' (TdKey a x) = Some v"
    and "\<And>a x v. db s (HeaderKey a x) = Some v \<Longrightarrow> db s' (HeaderKey a x) = Some v"
    and "db s' (HeaderKey (number (header (itemBlock it))) (HashOf (header (itemBlock it))))
           = Some (VHeader (header (itemBlock it)))"
    and "db s' (HashToNumberKey (HashOf (header (itemBlock it))))
           = Some (VNumber (number (header (itemBlock it))))"
proof -
  let ?hdr = "header (itemBlock it)"
  let ?n = "number ?hdr"
  let ?hash = "HashOf ?hdr"
  from wf have c: "cacheOK s" and h: "headersOK s" and t: "tdsOK s" and cn: "canonOK s"
    and lk: "lookupsOK s" and hd: "headsOK s"
    by (simp_all add: wellFormed_def)
  from put obtain currentTd td where cur: "getCurrentTd False s = Some currentTd"
    and td: "getBlockTd False ?hdr s = Some td"
    by (rule putAccepted_success) blast
  from wf_getBlockTd_number[OF c h t td] have nz: "?n \<noteq> 0" .
  then have ng: "\<not> isGenesis (itemBlock it)" by (simp add: isGenesis_def)
  from wf_getBlockTd[OF c td] obtain pt where
    pt: "db s (TdKey (?n - 1) (parentHash ?hdr)) = Some (VTd pt)" "td = difficulty ?hdr + pt"
    by blast
  have nn: "0 \<le> ?n"
  proof -
    from t pt(1) obtain w where "db s (HeaderKey (?n - 1) (parentHash ?hdr)) = Some (VHeader w)"
      unfolding tdsOK_def by blast
    with h have "0 \<le> ?n - 1" unfolding headersOK_def by blast
    then show ?thesis by simp
  qed
  from wf_getCurrentTd[OF wf cur] obtain wh where
    wh: "headHeader s = Some (HashOf wh)" "stored s wh"
    "db s (TdKey (number wh) (HashOf wh)) = Some (VTd (fst currentTd))"
    "\<forall>n h t. db s (TdKey n h) = Some (VTd t) \<longrightarrow> t \<le> fst currentTd"
    by blast
  let ?R = "\<lambda>w. w = ?hdr \<or> stored s w"
  let ?b = "blockOps it False td"
  let ?win = "isGenesis (itemBlock it) \<or> td > fst currentTd"
  have "\<exists>ext. list_all (putOp (?n + 1) ?R) ext
      \<and> (dbm_numberToHash s ?n = Some ?hash \<or> Put (HashToNumberKey ?hash) (VNumber ?n) \<in> set ext)
      \<and> cache s' = foldl applyOp (cache s) (?b @ ext)
      \<and> db s' = foldl applyOp (db s) (?b @ ext @ saveHeadOps s')
      \<and> headHeader s' = (if ?win then Some ?hash else headHeader s)
      \<and> (headBlock s' = headBlock s \<or> (\<exists>w. ?R w \<and> headBlock s' = Some (HashOf w)))
      \<and> chainId s' = chainId s \<and> validate s' = validate s
      \<and> (\<not> ?win \<longrightarrow>
            ext = [Put (HashToNumberKey ?hash) (VNumber ?n)]
          \<and> heads s' = heads s \<and> staleHeads s' = staleHeads s
          \<and> staleHeadBlock s' = staleHeadBlock s \<and> genesis s' = genesis s
          \<and> headBlock s' = (if td > snd currentTd \<and> \<not> isHeader it then Some ?hash
                             else headBlock s))"
    by (rule put_effect[OF put cur td]) (use cached_blockOps_getHeader[OF c h] in auto)
  then obtain ext where ext: "list_all (putOp (?n + 1) ?R) ext"
    and top: "dbm_numberToHash s ?n = Some ?hash
                \<or> Put (HashToNumberKey ?hash) (VNumber ?n) \<in> set ext"
    and c': "cache s' = foldl applyOp (cache s) (?b @ ext)"
    and d': "db s' = foldl applyOp (db s) (?b @ ext @ saveHeadOps s')"
    and hh': "headHeader s' = (if ?win then Some ?hash else headHeader s)"
    and hb': "headBlock s' = headBlock s \<or> (\<exists>w. ?R w \<and> headBlock s' = Some (HashOf w))"
    by blast
  let ?all = "?b @ ext @ saveHeadOps s'"
  have all: "list_all (batchOp ?hdr td (?n + 1) ?R) ?all"
    using blockOps_blockOp[of it td False] ext saveHeadOps_headOp[of s']
    by (auto simp: list_all_iff batchOp_def)
  have inner: "list_all (\<lambda>op. blockOp ?hdr td op \<or> putOp (?n + 1) ?R op) (?b @ ext)"
    using blockOps_blockOp[of it td False] ext by (auto simp: list_all_iff)
  have tdput: "Put (TdKey ?n ?hash) (VTd td) \<in> set ?all"
    and hdput: "Put (HeaderKey ?n ?hash) (VHeader ?hdr) \<in> set ?all"
    by (simp_all add: blockOps_def Let_def)

  txt \<open>Headers.\<close>
  have P2: "db s' (HeaderKey ?n ?hash) = Some (VHeader ?hdr)"
    unfolding d' by (rule batch_header_written[OF all hdput])
  have P3: "db s (HeaderKey a x) = Some v \<or> (a = ?n \<and> x = ?hash \<and> v = VHeader ?hdr)"
    if "db s' (HeaderKey a x) = Some v" for a x v
    using batch_header[OF all, of "db s" a x] that unfolding d' by auto
  have P1: "db s' (HeaderKey a x) = Some v" if old: "db s (HeaderKey a x) = Some v" for a x v
  proof -
    from batch_header[OF all, of "db s" a x]
    show ?thesis
    proof
      assume "foldl applyOp (db s) ?all (HeaderKey a x) = db s (HeaderKey a x)"
      with old show ?thesis unfolding d' by simp
    next
      assume new: "a = ?n \<and> x = ?hash
                     \<and> foldl applyOp (db s) ?all (HeaderKey a x) = Some (VHeader ?hdr)"
      from header_at[OF h old] new have "v = VHeader ?hdr" by auto
      with new show ?thesis unfolding d' by auto
    qed
  qed
  have st': "stored s' w" if "?R w" for w
    using that P1 P2 by (auto simp: stored_def)

  txt \<open>Total difficulties.\<close>
  have P5: "db s' (TdKey ?n ?hash) = Some (VTd td)"
    unfolding d' by (rule batch_td_written[OF all tdput])
  have P6: "db s (TdKey a x) = Some v \<or> (a = ?n \<and> x = ?hash \<and> v = VTd td)"
    if "db s' (TdKey a x) = Some v" for a x v
    using batch_td[OF all, of "db s" a x] that unfolding d' by auto
  have P4: "db s' (TdKey a x) = Some v" if old: "db s (TdKey a x) = Some v" for a x v
  proof -
    from batch_td[OF all, of "db s" a x]
    show ?thesis
    proof
      assume "foldl applyOp (db s) ?all (TdKey a x) = db s (TdKey a x)"
      with old show ?thesis unfolding d' by simp
    next
      assume new: "a = ?n \<and> x = ?hash
                     \<and> foldl applyOp (db s) ?all (TdKey a x) = Some (VTd td)"
      with old have "db s (TdKey ?n ?hash) = Some v" by simp
      from td_determined[OF h t this nz pt(1)] pt(2) have "v = VTd td" by simp
      with new show ?thesis unfolding d' by auto
    qed
  qed

  txt \<open>The lookup tables.\<close>
  have P9: "\<exists>w. x = HashOf w \<and> v = VNumber (number w) \<and> ?R w"
    if new: "db s' (HashToNumberKey x) = Some v" for x v
  proof -
    from batch_hashToNumber[OF all, of "db s" x]
    show ?thesis
    proof
      assume "foldl applyOp (db s) ?all (HashToNumberKey x) = db s (HashToNumberKey x)"
      with new have "db s (HashToNumberKey x) = Some v" unfolding d' by simp
      with lk show ?thesis unfolding lookupsOK_def by blast
    next
      assume "\<exists>w. ?R w \<and> x = HashOf w
                \<and> foldl applyOp (db s) ?all (HashToNumberKey x) = Some (VNumber (number w))"
      with new show ?thesis unfolding d' by auto
    qed
  qed
  have P7: "db s' (HashToNumberKey x) = Some v" if old: "db s (HashToNumberKey x) = Some v" for x v
  proof -
    from lk old obtain w0 where w0: "x = HashOf w0" "v = VNumber (number w0)"
      unfolding lookupsOK_def by blast
    from batch_hashToNumber[OF all, of "db s" x]
    show ?thesis
    proof
      assume "foldl applyOp (db s) ?all (HashToNumberKey x) = db s (HashToNumberKey x)"
      with old show ?thesis unfolding d' by simp
    next
      assume "\<exists>w. ?R w \<and> x = HashOf w
                \<and> foldl applyOp (db s) ?all (HashToNumberKey x) = Some (VNumber (number w))"
      with w0 show ?thesis unfolding d' by auto
    qed
  qed
  have P8: "db s' (HashToNumberKey ?hash) = Some (VNumber ?n)"
  proof -
    from top show ?thesis
    proof
      assume "Put (HashToNumberKey ?hash) (VNumber ?n) \<in> set ext"
      then have "Put (HashToNumberKey ?hash) (VNumber ?n) \<in> set ?all" by simp
      from batch_hashToNumber_written[OF all this] show ?thesis unfolding d' .
    next
      assume "dbm_numberToHash s ?n = Some ?hash"
      with c have "db s (NumberToHashKey ?n) = Some (VHash ?hash)"
        by (rule wf_numberToHash)
      with cn obtain w where "VHash ?hash = VHash (HashOf w)" "stored s w"
        unfolding canonOK_def by blast
      then have "stored s ?hdr" by simp
      from stored_header(2)[OF h this] have "db s (HashToNumberKey ?hash) = Some (VNumber ?n)" .
      then show ?thesis by (rule P7)
    qed
  qed
  have P10: "\<exists>w. v = VHash (HashOf w) \<and> number w = k \<and> ?R w"
    if new: "db s' (NumberToHashKey k) = Some v" for k v
  proof -
    from batch_numberToHash[OF all, of "db s" k]
    show ?thesis
    proof (elim disjE)
      assume "foldl applyOp (db s) ?all (NumberToHashKey k) = db s (NumberToHashKey k)"
      with new have "db s (NumberToHashKey k) = Some v" unfolding d' by simp
      with cn obtain w where "v = VHash (HashOf w)" "number w = k" "stored s w"
        unfolding canonOK_def by blast
      then show ?thesis by blast
    next
      assume "foldl applyOp (db s) ?all (NumberToHashKey k) = None"
      with new show ?thesis unfolding d' by simp
    next
      assume "\<exists>w. ?R w \<and> k = number w
                \<and> foldl applyOp (db s) ?all (NumberToHashKey k) = Some (VHash (HashOf w))"
      then obtain w where w: "?R w" "k = number w"
        "foldl applyOp (db s) ?all (NumberToHashKey k) = Some (VHash (HashOf w))" by blast
      from w(3) new have "v = VHash (HashOf w)" unfolding d' by simp
      with w(1,2) show ?thesis by blast
    qed
  qed

  txt \<open>The invariants of the new state.\<close>
  have "headersOK s'"
    unfolding headersOK_def
  proof (intro allI impI)
    fix a x v assume new: "db s' (HeaderKey a x) = Some v"
    from P3[OF new] show "\<exists>w. v = VHeader w \<and> x = HashOf w \<and> a = number w \<and> 0 \<le> a
            \<and> (\<exists>t. db s' (TdKey a x) = Some (VTd t))
            \<and> db s' (HashToNumberKey x) = Some (VNumber a)"
    proof
      assume old: "db s (HeaderKey a x) = Some v"
      from h old obtain w t where "v = VHeader w" "x = HashOf w" "a = number w" "0 \<le> a"
        "db s (TdKey a x) = Some (VTd t)" "db s (HashToNumberKey x) = Some (VNumber a)"
        unfolding headersOK_def by blast
      with P4 P7 show ?thesis by blast
    next
      assume "a = ?n \<and> x = ?hash \<and> v = VHeader ?hdr"
      with P5 P8 nn show ?thesis by blast
    qed
  qed
  moreover have "tdsOK s'"
    unfolding tdsOK_def
  proof (intro allI impI)
    fix a x v assume new: "db s' (TdKey a x) = Some v"
    from P6[OF new] show "\<exists>w t. v = VTd t \<and> db s' (HeaderKey a x) = Some (VHeader w)
            \<and> (a \<noteq> 0 \<longrightarrow> (\<exists>pt. db s' (TdKey (a - 1) (parentHash w)) = Some (VTd pt)
                              \<and> t = difficulty w + pt))"
    proof
      assume old: "db s (TdKey a x) = Some v"
      from t old obtain w t0 where w: "v = VTd t0" "db s (HeaderKey a x) = Some (VHeader w)"
        "a \<noteq> 0 \<longrightarrow> (\<exists>pt. db s (TdKey (a - 1) (parentHash w)) = Some (VTd pt)
                        \<and> t0 = difficulty w + pt)"
        unfolding tdsOK_def by blast
      with P1 P4 show ?thesis by blast
    next
      assume "a = ?n \<and> x = ?hash \<and> v = VTd td"
      with P2 P4[OF pt(1)] pt(2) show ?thesis by blast
    qed
  qed
  moreover have "canonOK s'"
    unfolding canonOK_def using P10 st' by blast
  moreover have "lookupsOK s'"
    unfolding lookupsOK_def using P9 st' by blast
  moreover have "cacheOK s'"
    unfolding cacheOK_def
  proof (intro allI impI)
    fix k v assume ck: "cache s' k = Some v"
    have nh: "k \<noteq> HeadsKey \<and> k \<noteq> HeadHeaderKey \<and> k \<noteq> HeadBlockKey"
    proof -
      have "cache s HeadsKey = None" "cache s HeadHeaderKey = None" "cache s HeadBlockKey = None"
        using c unfolding cacheOK_def by (metis option.exhaust)+
      then have "cache s' HeadsKey = None" "cache s' HeadHeaderKey = None"
        "cache s' HeadBlockKey = None"
        unfolding c' using batch_head_keys[OF inner, of "cache s"] by simp_all
      with ck show ?thesis by auto
    qed
    have ne: "\<forall>e. k \<noteq> EthashKey e"
    proof
      fix e
      have "cache s (EthashKey e) = None"
        using c unfolding cacheOK_def by (metis option.exhaust)
      then have "cache s' (EthashKey e) = None"
        unfolding c' using batch_ethash_key[OF inner, of "cache s" e] by simp
      with ck show "k \<noteq> EthashKey e" by auto
    qed
    have "foldl applyOp (db s) (?b @ ext) k = Some v"
      using ck unfolding c'
      by (rule foldl_applyOp_le[rotated]) (use c in \<open>auto simp: cacheOK_def\<close>)
    moreover have "\<forall>op \<in> set (saveHeadOps s'). opKey op \<noteq> k"
      using nh by (auto simp: saveHeadOps_def)
    ultimately have "db s' k = Some v"
      unfolding d' by (simp add: foldl_applyOp_other)
    with nh ne show "db s' k = Some v \<and> k \<noteq> HeadsKey \<and> k \<noteq> HeadHeaderKey
        \<and> k \<noteq> HeadBlockKey \<and> (\<forall>e. k \<noteq> EthashKey e)"
      by simp
  qed
  moreover have "headsOK s'"
  proof -
    from hd obtain wb where wb: "headBlock s = Some (HashOf wb)" "stored s wb"
      unfolding headsOK_def by blast
    from hb' wb obtain wb' where wb': "headBlock s' = Some (HashOf wb')" "stored s' wb'"
      using st' by auto
    show ?thesis
    proof (cases ?win)
      case True
      with ng have gt: "td > fst currentTd" by simp
      have "\<forall>a x t. db s' (TdKey a x) = Some (VTd t) \<longrightarrow> t \<le> td"
      proof (intro allI impI)
        fix a x t0 assume "db s' (TdKey a x) = Some (VTd t0)"
        from P6[OF this] wh(4) gt show "t0 \<le> td" by fastforce
      qed
      with True hh' st'[of ?hdr] P5 wb' show ?thesis
        unfolding headsOK_def by auto
    next
      case False
      then have le: "td \<le> fst currentTd" by simp
      have "\<forall>a x t. db s' (TdKey a x) = Some (VTd t) \<longrightarrow> t \<le> fst currentTd"
      proof (intro allI impI)
        fix a x t0 assume "db s' (TdKey a x) = Some (VTd t0)"
        from P6[OF this] wh(4) le show "t0 \<le> fst currentTd" by fastforce
      qed
      with False hh' wh st'[of wh] P4[OF wh(3)] wb' show ?thesis
        unfolding headsOK_def by auto
    qed
  qed
  ultimately show "wellFormed s'" by (simp add: wellFormed_def)
  show "db s' (TdKey a x) = Some v" if "db s (TdKey a x) = Some v" for a x v
    using that by (rule P4)
  show "db s' (HeaderKey a x) = Some v" if "db s (HeaderKey a x) = Some v" for a x v
    using that by (rule P1)
  show "db s' (HeaderKey ?n ?hash) = Some (VHeader ?hdr)" by (rule P2)
  show "db s' (HashToNumberKey ?hash) = Some (VNumber ?n)" by (rule P8)
qed

lemma init_fresh:
  assumes g: "isGenesis g"
    and i: "init E g (newBlockchain Map.empty c v) = Some (None, s)"
  obtains d where "\<And>k. (\<forall>e. k \<noteq> EthashKey e) \<Longrightarrow> d k = None"
    and "db s = foldl applyOp d
                  (blockOps (BlockItem g) True (difficulty (header g))
                   @ lookupOps (HashOf (header g)) 0
                   @ saveHeadOps (acceptHead (BlockItem g) (newBlockchain Map.empty c v)))"
    and "cache s = foldl applyOp Map.empty
                  (blockOps (BlockItem g) True (difficulty (header g))
                   @ lookupOps (HashOf (header g)) 0)"
    and "headHeader s = Some (HashOf (header g))" and "headBlock s = Some (HashOf (header g))"
    and "heads s = []" and "staleHeads s = None" and "\<not> staleHeadBlock s"
proof -
  let ?s0 = "newBlockchain Map.empty c v"
  let ?it = "BlockItem g"
  let ?hdr = "header g"
  let ?b = "blockOps ?it True (difficulty ?hdr)"
  let ?l = "lookupOps (HashOf ?hdr) 0"
  from g have n0: "number ?hdr = 0" by (simp add: isGenesis_def)
  have ib: "itemBlock ?it = g" by (simp add: itemBlock_def)
  have n00: "dbm_numberToHash ?s0 0 = None"
    by (simp add: dbm_numberToHash_def dbGet_def newBlockchain_def)
  from i n00 obtain s2 where p: "putBlockOrHeader E ?it True ?s0 = Some (None, s2)"
    and s: "s = s2\<lparr>heads := [], headHeader := genesis s2, headBlock := genesis s2\<rparr>"
    by (auto simp: init_def split: option.splits prod.splits)
  from p obtain sv where eo: "ethashOnly ?s0 sv"
    and acc: "putAccepted ?it True sv = Some (None, s2)"
    by (rule putBlockOrHeader_success)
  note f = ethashOnly_fields[OF eo]
  have sv: "cache sv = Map.empty" "heads sv = []" "headHeader sv = None" "headBlock sv = None"
    "genesis sv = None" "staleHeads sv = None" "\<not> staleHeadBlock sv"
    "db sv (NumberToHashKey a) = None" for a
    by (simp_all add: f newBlockchain_def)
  have dsv: "db sv k = None" if "\<forall>e. k \<noteq> EthashKey e" for k
    using eo that unfolding ethashOnly_def by (simp add: newBlockchain_def)
  let ?s1 = "acceptHead ?it (cached ?b sv)"
  have nh: "dbm_numberToHash ?s1 1 = None"
    by (simp add: dbm_numberToHash_def dbGet_def sv blockOps_def Let_def ib)
  have ds: "deleteStaleAssignments 1 (HashOf ?hdr) ?b ?s1 = Some (None, ?b, ?s1)"
    by (simp add: deleteStaleAssignments.simps[of 1] deleteStaleStep_def nh)
  have rs: "rebuildStep ?hdr ?b ?s1 = Return None (?b @ ?l) (cached ?l ?s1)"
    by (simp add: rebuildStep_def Let_def n0)
  have rc: "rebuildCanonical ?hdr ?b ?s1 = Some (None, ?b @ ?l, cached ?l ?s1)"
    by (simp add: rebuildCanonical.simps[of ?hdr] rs)
  have ri: "rebuildInfo ?it True (difficulty ?hdr) (0, 0) sv = Some (None, ?b @ ?l, cached ?l ?s1)"
    using g ds rc by (simp add: rebuildInfo_def Let_def ib n0)
  let ?s2 = "dbm_batch ((?b @ ?l) @ saveHeadOps (cached ?l ?s1)) (cached ?l ?s1)"
  from acc have s2: "s2 = ?s2"
    by (simp add: putAccepted_def ib getCurrentTd_def getBlockTd_def ri)
  have sh: "saveHeadOps (cached ?l ?s1) = saveHeadOps (acceptHead ?it ?s0)"
    by (rule saveHeadOps_cong) (simp_all add: ib sv newBlockchain_def)
  show ?thesis
  proof (rule that[of "db sv"])
    show "db sv k = None" if "\<forall>e. k \<noteq> EthashKey e" for k using that by (rule dsv)
    show "db s = foldl applyOp (db sv) (?b @ ?l @ saveHeadOps (acceptHead ?it ?s0))"
      unfolding s s2 sh[symmetric] by simp
    show "cache s = foldl applyOp Map.empty (?b @ ?l)"
      unfolding s s2 by (simp add: sv)
    show "headHeader s = Some (HashOf ?hdr)" "headBlock s = Some (HashOf ?hdr)"
      unfolding s s2 using g by (simp_all add: ib)
    show "heads s = []" "staleHeads s = None" "\<not> staleHeadBlock s"
      unfolding s s2 by (simp_all add: sv)
  qed
qed

lemma init_wellFormed:
  assumes g: "isGenesis g"
    and i: "init E g (newBlockchain Map.empty c v) = Some (None, s)"
  shows "wellFormed s"
proof -
  let ?hdr = "header g"
  from init_fresh[OF g i] obtain d where d: "\<And>k. (\<forall>e. k \<noteq> EthashKey e) \<Longrightarrow> d k = None"
    and f: "db s = foldl applyOp d
                  (blockOps (BlockItem g) True (difficulty (header g))
                   @ lookupOps (HashOf (header g)) 0
                   @ saveHeadOps (acceptHead (BlockItem g) (newBlockchain Map.empty c v)))"
    "cache s = foldl applyOp Map.empty
                  (blockOps (BlockItem g) True (difficulty (header g))
                   @ lookupOps (HashOf (header g)) 0)"
    "headHeader s = Some (HashOf (header g))" "headBlock s = Some (HashOf (header g))"
    by blast
  from g have n0: "number ?hdr = 0" by (simp add: isGenesis_def)
  have ib: "itemBlock (BlockItem g) = g" by (simp add: itemBlock_def)
  have dk: "d (HeaderKey a x) = None" "d (TdKey a x) = None" "d (NumberToHashKey a) = None"
    "d (HashToNumberKey x) = None" "d (BodyKey a x) = None" for a x
    by (simp_all add: d)
  have dbv: "db s (HeaderKey a x) = (if a = 0 \<and> x = HashOf ?hdr then Some (VHeader ?hdr) else None)"
    "db s (TdKey a x) = (if a = 0 \<and> x = HashOf ?hdr then Some (VTd (difficulty ?hdr)) else None)"
    "db s (NumberToHashKey a) = (if a = 0 then Some (VHash (HashOf ?hdr)) else None)"
    "db s (HashToNumberKey x) = (if x = HashOf ?hdr then Some (VNumber 0) else None)" for a x
    unfolding f(1) by (simp_all add: blockOps_def lookupOps_def saveHeadOps_def Let_def ib n0 dk)
  have st: "stored s ?hdr" by (simp add: stored_def dbv n0)
  have "cacheOK s"
    unfolding cacheOK_def f(1,2)
    by (auto simp: blockOps_def lookupOps_def saveHeadOps_def Let_def ib n0 split: if_splits)
  moreover have "headersOK s"
    unfolding headersOK_def by (auto simp: dbv n0 split: if_splits)
  moreover have "tdsOK s"
    unfolding tdsOK_def by (auto simp: dbv n0 split: if_splits)
  moreover have "canonOK s"
    unfolding canonOK_def using st by (auto simp: dbv n0 split: if_splits)
  moreover have "lookupsOK s"
    unfolding lookupsOK_def using st n0 by (auto simp: dbv split: if_splits)
  moreover have "headsOK s"
    unfolding headsOK_def
    by (rule exI[of _ ?hdr], rule exI[of _ ?hdr], rule exI[of _ "difficulty ?hdr"])
       (use st in \<open>auto simp: f(3,4) dbv n0 split: if_splits\<close>)
  ultimately show ?thesis by (simp add: wellFormed_def)
qed

text \<open>A successful put without the genesis flag, from the checks on, keeps the invariants.\<close>

lemma putBlockOrHeader_wellFormed:
  assumes "wellFormed s" "putBlockOrHeader E it False s = Some (None, s')"
  shows "wellFormed s'"
proof -
  from assms(2) obtain s0 where eo: "ethashOnly s s0"
    and acc: "putAccepted it False s0 = Some (None, s')"
    by (rule putBlockOrHeader_success)
  from put_preserves(1)[OF wellFormed_ethashOnly[OF assms(1) eo] acc] show ?thesis .
qed




subsection \<open>Applying operations once more\<close>

lemma foldl_applyOp_indep:
  "\<exists>op \<in> set l. opKey op = k \<Longrightarrow> foldl applyOp m l k = foldl applyOp m' l k"
proof (induction l rule: rev_induct)
  case Nil
  then show ?case by simp
next
  case (snoc op l)
  show ?case
  proof (cases "opKey op = k")
    case True
    then show ?thesis by (simp add: applyOp_same)
  next
    case False
    with snoc show ?thesis by (auto simp: applyOp_other)
  qed
qed

lemma foldl_applyOp_redo:
  assumes "\<forall>op \<in> set l. \<forall>op' \<in> set ext. opKey op' \<noteq> opKey op"
  shows "foldl applyOp (foldl applyOp m (l @ ext)) l = foldl applyOp m (l @ ext)"
proof
  fix k
  show "foldl applyOp (foldl applyOp m (l @ ext)) l k = foldl applyOp m (l @ ext) k"
  proof (cases "\<exists>op \<in> set l. opKey op = k")
    case True
    with assms have "\<forall>op' \<in> set ext. opKey op' \<noteq> k" by auto
    then have "foldl applyOp m (l @ ext) k = foldl applyOp m l k"
      by (rule foldl_applyOp_append_other)
    with foldl_applyOp_indep[OF True, of "foldl applyOp m (l @ ext)" m] show ?thesis by simp
  next
    case False
    then have "\<forall>op \<in> set l. opKey op \<noteq> k" by auto
    then show ?thesis by (rule foldl_applyOp_other)
  qed
qed

lemma applyOp_idem: "m (opKey op) = opEffect op \<Longrightarrow> applyOp m op = m"
  by (cases op) (auto simp: fun_eq_iff)

subsection \<open>A walk that leaves headBlock alone\<close>

lemma rebuildStep_Return_keeps:
  assumes "rebuildStep hdr ops s = Return e ops1 s1"
    and "headBlock s = Some X" and "\<not> staleHeadBlock s"
    and "dbm_numberToHash s (number hdr) = Some X \<longrightarrow> X = HashOf hdr"
  shows "headBlock s1 = Some X \<and> \<not> staleHeadBlock s1"
  using assms
  by (auto simp: rebuildStep_def Let_def split: if_splits option.splits)

lemma rebuildCanonical_keeps_aux:
  "rebuildCanonical hdr ops s = Some r \<Longrightarrow> headBlock s = Some X \<Longrightarrow> \<not> staleHeadBlock s
     \<Longrightarrow> (\<And>h m w. dbm_getHeader s h m = Some w \<Longrightarrow> m = number w)
     \<Longrightarrow> (\<And>k. k \<le> number hdr \<Longrightarrow> dbm_numberToHash s k = Some X
            \<Longrightarrow> k = number hdr \<and> X = HashOf hdr)
     \<Longrightarrow> headBlock (snd (snd r)) = Some X \<and> \<not> staleHeadBlock (snd (snd r))"
proof (induction rule: rebuildCanonical.raw_induct[rotated 1, consumes 1])
  case (1 rc hdr ops s r)
  note hb = 1(3) and nf = 1(4) and nums = 1(5) and can = 1(6)
  have top: "dbm_numberToHash s (number hdr) = Some X \<longrightarrow> X = HashOf hdr"
    using can[of "number hdr"] by simp
  show ?case
  proof (cases "rebuildStep hdr ops s")
    case (Return e ops1 s1)
    with 1(2) have r: "r = (e, ops1, s1)" by simp
    from rebuildStep_Return_keeps[OF Return hb nf top] show ?thesis unfolding r by simp
  next
    case (Continue parent ops1 s1)
    note c = rebuildStep_Continue[OF Continue]
    from 1(2) Continue have call: "rc parent ops1 s1 = Some r" by simp
    have hb1: "headBlock s1 = Some X" using c(12) hb by simp
    have nf1: "\<not> staleHeadBlock s1"
      using c(13) nf hb top c(2) by auto
    have reads: "\<And>h m. dbm_getHeader s1 h m = dbm_getHeader s h m"
      by (rule dbm_getHeader_cong) (simp_all add: c lookupOps_def)
    have nums1: "\<And>h m w. dbm_getHeader s1 h m = Some w \<Longrightarrow> m = number w"
      using reads nums by simp
    have np: "number parent = number hdr - 1" using nums[OF c(3)] by simp
    have can1: "k = number parent \<and> X = HashOf parent"
      if k: "k \<le> number parent" and x: "dbm_numberToHash s1 k = Some X" for k
    proof -
      from k np have ne: "k \<noteq> number hdr" by simp
      have "dbm_numberToHash s1 k = dbm_numberToHash s k"
        by (rule dbm_numberToHash_cong) (use ne in \<open>simp_all add: c lookupOps_def\<close>)
      with x have "dbm_numberToHash s k = Some X" by simp
      from can[OF _ this] k np ne show ?thesis by simp
    qed
    from 1(1)[OF call hb1 nf1 nums1 can1] show ?thesis .
  qed
qed

lemma rebuildCanonical_keeps:
  assumes "rebuildCanonical hdr ops s = Some (e, ops', s')"
    and "headBlock s = Some X" and "\<not> staleHeadBlock s"
    and "\<And>h m w. dbm_getHeader s h m = Some w \<Longrightarrow> m = number w"
    and "\<And>k. k \<le> number hdr \<Longrightarrow> dbm_numberToHash s k = Some X
            \<Longrightarrow> k = number hdr \<and> X = HashOf hdr"
  shows "headBlock s' = Some X" and "\<not> staleHeadBlock s'"
proof -
  have "headBlock (snd (snd (e, ops', s'))) = Some X
      \<and> \<not> staleHeadBlock (snd (snd (e, ops', s')))"
    by (rule rebuildCanonical_keeps_aux[OF assms(1,2,3)]) (use assms(4,5) in blast)+
  then show "headBlock s' = Some X" and "\<not> staleHeadBlock s'" by simp_all
qed

subsection \<open>Putting a block once more\<close>

lemma cached_id: "foldl applyOp (cache s) ops = cache s \<Longrightarrow> cached ops s = s"
  by (simp add: cached_def)

lemma dbm_batch_id: "foldl applyOp (db s) ops = db s \<Longrightarrow> dbm_batch ops s = s"
  by (simp add: dbm_batch_def)

lemma cached_blockOps_getHeader_number:
  assumes "cacheOK s" "headersOK s"
    and "dbm_getHeader (cached (blockOps it isGen td) s) h m = Some w"
  shows "m = number w"
proof -
  let ?hdr = "header (itemBlock it)"
  let ?c = "foldl applyOp (cache s) (blockOps it isGen td)"
  have bo: "list_all (batchOp ?hdr td 0 (\<lambda>w. False)) (blockOps it isGen td)"
    using blockOps_blockOp[of it td isGen] by (simp add: list_all_iff batchOp_def)
  from batch_header[OF bo, of "cache s" m h]
  show ?thesis
  proof
    assume same: "?c (HeaderKey m h) = cache s (HeaderKey m h)"
    have "dbm_getHeader (cached (blockOps it isGen td) s) h m = dbm_getHeader s h m"
      by (rule dbm_getHeader_cong) (simp_all add: same)
    with assms(3) wf_getHeader[OF assms(1,2)] show ?thesis by auto
  next
    assume a: "m = number ?hdr \<and> h = HashOf ?hdr \<and> ?c (HeaderKey m h) = Some (VHeader ?hdr)"
    then have "dbGet (cached (blockOps it isGen td) s) (HeaderKey m h) = Some (VHeader ?hdr)"
      by (auto simp: dbGet_def)
    with assms(3) a show ?thesis by (simp add: dbm_getHeader_def)
  qed
qed

text \<open>When no stale flag for \<^verbatim>\<open>_headBlock\<close> is pending, a block that becomes the new head
  of the header chain is \<^verbatim>\<open>_headBlock\<close> after its put.\<close>

lemma put_win_headBlock:
  assumes wf: "wellFormed s" and nf: "\<not> staleHeadBlock s"
    and put: "putAccepted (BlockItem b) False s = Some (None, s')"
    and cur: "getCurrentTd False s = Some currentTd"
    and td: "getBlockTd False (header b) s = Some td"
    and win: "td > fst currentTd"
  shows "headBlock s' = Some (HashOf (header b))"
proof -
  let ?it = "BlockItem b"
  let ?hdr = "header b"
  let ?n = "number ?hdr"
  let ?hash = "HashOf ?hdr"
  let ?b = "blockOps ?it False td"
  let ?s0 = "acceptHead ?it (cached ?b s)"
  have ib: "itemBlock ?it = b" "\<not> isHeader ?it" by (simp_all add: itemBlock_def isHeader_def)
  from wf have c: "cacheOK s" and h: "headersOK s" and cn: "canonOK s"
    by (simp_all add: wellFormed_def)
  from put obtain currentTd' td' ops s1 where
    "getCurrentTd False s = Some currentTd'" "getBlockTd False (header (itemBlock ?it)) s = Some td'"
    and ri': "rebuildInfo ?it False td' currentTd' s = Some (None, ops, s1)"
    and s': "s' = dbm_batch (ops @ saveHeadOps s1) s1"
    by (rule putAccepted_success)
  with cur td ib have ri: "rebuildInfo ?it False td currentTd s = Some (None, ops, s1)" by simp
  from win have w: "isGenesis (itemBlock ?it) \<or> td > fst currentTd" by simp
  from rebuildInfo_wins_walks[OF ri w] ib obtain ops2 s2 where
    d: "deleteStaleAssignments (?n + 1) ?hash ?b ?s0 = Some (None, ops2, s2)"
    and r: "rebuildCanonical ?hdr ops2 s2 = Some (None, ops, s1)" by auto
  note de = deleteStale_effect[OF d]
  have hb2: "headBlock s2 = Some ?hash" using de(3) ib by simp
  have nf2: "\<not> staleHeadBlock s2" using de(5) nf by simp
  have reads0: "\<And>x m. dbm_getHeader ?s0 x m = dbm_getHeader (cached ?b s) x m"
    by (rule dbm_getHeader_cong) simp_all
  have reads2: "m = number w" if "dbm_getHeader s2 x m = Some w" for x m w
    using that mirrored_delOp_getHeader[OF de(1)] reads0
      cached_blockOps_getHeader_number[OF c h, of ?it False td x m w] by simp
  have can: "k = ?n \<and> ?hash = HashOf ?hdr"
    if k: "k \<le> ?n" and x: "dbm_numberToHash s2 k = Some ?hash" for k
  proof -
    have n2: "dbm_numberToHash s2 k = dbm_numberToHash ?s0 k"
      using de(1) by (rule mirrored_delOp_numberToHash) (use k in simp)
    have "\<forall>op \<in> set ?b. opKey op \<noteq> NumberToHashKey k"
      using blockOps_keys[of ?it False td] by (auto simp: lookupOp_def)
    then have "cache ?s0 (NumberToHashKey k) = cache s (NumberToHashKey k)"
      by (simp add: foldl_applyOp_other)
    then have n0: "dbm_numberToHash ?s0 k = dbm_numberToHash s k"
      by (intro dbm_numberToHash_cong) simp_all
    from x n2 n0 have "dbm_numberToHash s k = Some ?hash" by simp
    with c have "db s (NumberToHashKey k) = Some (VHash ?hash)" by (rule wf_numberToHash)
    with cn obtain w where "VHash ?hash = VHash (HashOf w)" "number w = k"
      unfolding canonOK_def by blast
    then show ?thesis by auto
  qed
  have "headBlock s1 = Some ?hash"
    using r hb2 nf2 reads2 can by (rule rebuildCanonical_keeps(1))
  then show ?thesis unfolding s' by simp
qed

lemma blockOps_written:
  "op \<in> set (blockOps it isGen td)
     \<Longrightarrow> foldl applyOp m (blockOps it isGen td) (opKey op) = opEffect op"
  by (auto simp: blockOps_def Let_def)

lemma saveHeadOps_written:
  "op \<in> set (saveHeadOps s) \<Longrightarrow> foldl applyOp m (xs @ saveHeadOps s) (opKey op) = opEffect op"
  by (auto simp: saveHeadOps_def)

text \<open>What a successful put has written is what a second put of the item writes.\<close>

lemma put_written:
  assumes wf: "wellFormed s"
    and put: "putAccepted it False s = Some (None, s')"
    and ng: "\<not> isGenesis (itemBlock it)"
    and cur: "getCurrentTd False s = Some currentTd"
    and td: "getBlockTd False (header (itemBlock it)) s = Some td"
  shows "\<forall>op \<in> set (blockOps it False td
            @ [Put (HashToNumberKey (HashOf (header (itemBlock it))))
                   (VNumber (number (header (itemBlock it))))]).
           opEffect op = cache s' (opKey op)"
    and "\<forall>op \<in> set ((blockOps it False td
            @ [Put (HashToNumberKey (HashOf (header (itemBlock it))))
                   (VNumber (number (header (itemBlock it))))]) @ saveHeadOps s').
           opEffect op = db s' (opKey op)"
    and "db s' (TdKey (number (header (itemBlock it))) (HashOf (header (itemBlock it))))
           = Some (VTd td)"
    and "chainId s' = chainId s" and "validate s' = validate s"
    and "\<not> td > fst currentTd \<Longrightarrow>
           headBlock s' = (if td > snd currentTd \<and> \<not> isHeader it
                           then Some (HashOf (header (itemBlock it))) else headBlock s)"
proof -
  let ?hdr = "header (itemBlock it)"
  let ?n = "number ?hdr"
  let ?hash = "HashOf ?hdr"
  let ?put = "Put (HashToNumberKey ?hash) (VNumber ?n)"
  from wf have c: "cacheOK s" and h: "headersOK s" and t: "tdsOK s" and cn: "canonOK s"
    by (simp_all add: wellFormed_def)
  from ng have nz: "?n \<noteq> 0" by (simp add: isGenesis_def)
  from wf_getBlockTd[OF c td] obtain pt where
    pt: "db s (TdKey (?n - 1) (parentHash ?hdr)) = Some (VTd pt)" "td = difficulty ?hdr + pt"
    by blast
  from wf_getCurrentTd[OF wf cur] have
    mx: "\<forall>n h t. db s (TdKey n h) = Some (VTd t) \<longrightarrow> t \<le> fst currentTd"
    by blast
  let ?R = "\<lambda>w. w = ?hdr \<or> stored s w"
  let ?b = "blockOps it False td"
  let ?win = "isGenesis (itemBlock it) \<or> td > fst currentTd"
  have "\<exists>ext. list_all (putOp (?n + 1) ?R) ext
      \<and> (dbm_numberToHash s ?n = Some ?hash \<or> ?put \<in> set ext)
      \<and> cache s' = foldl applyOp (cache s) (?b @ ext)
      \<and> db s' = foldl applyOp (db s) (?b @ ext @ saveHeadOps s')
      \<and> headHeader s' = (if ?win then Some ?hash else headHeader s)
      \<and> (headBlock s' = headBlock s \<or> (\<exists>w. ?R w \<and> headBlock s' = Some (HashOf w)))
      \<and> chainId s' = chainId s \<and> validate s' = validate s
      \<and> (\<not> ?win \<longrightarrow>
            ext = [?put]
          \<and> heads s' = heads s \<and> staleHeads s' = staleHeads s
          \<and> staleHeadBlock s' = staleHeadBlock s \<and> genesis s' = genesis s
          \<and> headBlock s' = (if td > snd currentTd \<and> \<not> isHeader it then Some ?hash
                             else headBlock s))"
    by (rule put_effect[OF put cur td]) (use cached_blockOps_getHeader[OF c h] in auto)
  then obtain ext where ext: "list_all (putOp (?n + 1) ?R) ext"
    and top: "dbm_numberToHash s ?n = Some ?hash \<or> ?put \<in> set ext"
    and c': "cache s' = foldl applyOp (cache s) (?b @ ext)"
    and d': "db s' = foldl applyOp (db s) (?b @ ext @ saveHeadOps s')"
    and ids: "chainId s' = chainId s" "validate s' = validate s"
    and lose: "\<not> ?win \<longrightarrow> ext = [?put]
          \<and> headBlock s' = (if td > snd currentTd \<and> \<not> isHeader it then Some ?hash
                             else headBlock s)"
    by blast
  have inner: "list_all (batchOp ?hdr td (?n + 1) ?R) (?b @ ext)"
    using blockOps_blockOp[of it td False] ext by (auto simp: list_all_iff batchOp_def)
  have all: "list_all (batchOp ?hdr td (?n + 1) ?R) (?b @ ext @ saveHeadOps s')"
    using blockOps_blockOp[of it td False] ext saveHeadOps_headOp[of s']
    by (auto simp: list_all_iff batchOp_def)
  have extk: "\<forall>op \<in> set ext. lookupOp op"
    using ext delOp_lookupOp saveOp_lookupOp by (auto simp: list_all_iff putOp_def)
  have headk: "\<forall>op \<in> set (saveHeadOps s'). \<not> lookupOp op"
    by (simp add: saveHeadOps_def lookupOp_def)

  have inext: "?put \<in> set ext"
  proof (cases ?win)
    case False
    with lose show ?thesis by simp
  next
    case True
    with ng have gt: "td > fst currentTd" by simp
    from top show ?thesis
    proof
      assume "dbm_numberToHash s ?n = Some ?hash"
      with c have "db s (NumberToHashKey ?n) = Some (VHash ?hash)" by (rule wf_numberToHash)
      with cn obtain w where "VHash ?hash = VHash (HashOf w)" "stored s w"
        unfolding canonOK_def by blast
      then have "stored s ?hdr" by simp
      from stored_header(1)[OF h this] obtain t0 where
        t0: "db s (TdKey ?n ?hash) = Some (VTd t0)" by blast
      from td_determined[OF h t t0 nz pt(1)] pt(2) have "t0 = td" by simp
      with t0 mx have "td \<le> fst currentTd" by blast
      with gt show ?thesis by simp
    qed
  qed

  show tdw: "db s' (TdKey ?n ?hash) = Some (VTd td)"
    unfolding d' by (rule batch_td_written[OF all]) (simp add: blockOps_def Let_def)
  show "chainId s' = chainId s" and "validate s' = validate s" by (rule ids)+
  show "headBlock s' = (if td > snd currentTd \<and> \<not> isHeader it then Some ?hash else headBlock s)"
    if "\<not> td > fst currentTd"
    using that ng lose by simp

  show "\<forall>op \<in> set (?b @ [?put]). opEffect op = cache s' (opKey op)"
  proof
    fix op assume "op \<in> set (?b @ [?put])"
    then consider "op \<in> set ?b" | "op = ?put" by auto
    then show "opEffect op = cache s' (opKey op)"
    proof cases
      case 1
      with blockOps_keys[of it False td] have "\<not> lookupOp op" by blast
      with extk have "\<forall>op' \<in> set ext. opKey op' \<noteq> opKey op"
        by (auto simp: lookupOp_def)
      then have "cache s' (opKey op) = foldl applyOp (cache s) ?b (opKey op)"
        unfolding c' by (rule foldl_applyOp_append_other)
      with blockOps_written[OF 1, of "cache s"] show ?thesis by simp
    next
      case 2
      have "?put \<in> set (?b @ ext)" using inext by simp
      from batch_hashToNumber_written[OF inner this, of "cache s"] 2 show ?thesis
        unfolding c' by simp
    qed
  qed

  show "\<forall>op \<in> set ((?b @ [?put]) @ saveHeadOps s'). opEffect op = db s' (opKey op)"
  proof
    fix op assume "op \<in> set ((?b @ [?put]) @ saveHeadOps s')"
    then consider "op \<in> set ?b" | "op = ?put" | "op \<in> set (saveHeadOps s')" by auto
    then show "opEffect op = db s' (opKey op)"
    proof cases
      case 1
      with blockOps_keys[of it False td] have k: "\<not> lookupOp op" "opKey op \<noteq> HeadsKey"
        "opKey op \<noteq> HeadHeaderKey" "opKey op \<noteq> HeadBlockKey" by blast+
      have "\<forall>op' \<in> set (ext @ saveHeadOps s'). opKey op' \<noteq> opKey op"
      proof
        fix op' assume "op' \<in> set (ext @ saveHeadOps s')"
        then consider "op' \<in> set ext" | "op' \<in> set (saveHeadOps s')" by auto
        then show "opKey op' \<noteq> opKey op"
        proof cases
          case 1
          with extk k(1) show ?thesis by (auto simp: lookupOp_def)
        next
          case 2
          with k(2,3,4) show ?thesis by (auto simp: saveHeadOps_def)
        qed
      qed
      then have "db s' (opKey op) = foldl applyOp (db s) ?b (opKey op)"
        unfolding d' by (rule foldl_applyOp_append_other)
      with blockOps_written[OF 1, of "db s"] show ?thesis by simp
    next
      case 2
      have "?put \<in> set (?b @ ext @ saveHeadOps s')" using inext by simp
      from batch_hashToNumber_written[OF all this, of "db s"] 2 show ?thesis
        unfolding d' by simp
    next
      case 3
      from saveHeadOps_written[OF 3, of "db s" "?b @ ext"] show ?thesis
        unfolding d' by simp
    qed
  qed
qed

text \<open>On a store that satisfies the invariants and has no stale flag for \<^verbatim>\<open>_headBlock\<close>
  pending, putting a block a second time, after a put that succeeded (the collaborators
  accepting the block again, and Ethash finding the cache it has loaded), succeeds and
  leaves the state as it is.\<close>

theorem reput_without_stale_flag:
  assumes wf: "wellFormed s" and nf: "\<not> staleHeadBlock s"
    and put: "putBlock E b False s = Some (None, s')"
    and val: "validate s \<longrightarrow> blockValidate E s' b \<and> ethashLoaded E b s' = s'"
  shows "putBlock E b False s' = Some (None, s')"
proof -
  let ?it = "BlockItem b"
  let ?hdr = "header b"
  let ?n = "number ?hdr"
  let ?hash = "HashOf ?hdr"
  let ?put = "Put (HashToNumberKey ?hash) (VNumber ?n)"
  have ib: "itemBlock ?it = b" "\<not> isHeader ?it" by (simp_all add: itemBlock_def isHeader_def)
  from put have put': "putBlockOrHeader E ?it False s = Some (None, s')"
    by (simp add: putBlock_def)
  from put' obtain s0 where
    chain: "commonChainId (itemBlock ?it) = chainId s"
    and v2: "verifyPOW E (itemBlock ?it) s = (None, s0)"
    and eo: "ethashOnly s s0"
    and acc: "putAccepted ?it False s0 = Some (None, s')"
    by (rule putBlockOrHeader_success)
  note f0 = ethashOnly_fields[OF eo]
  have wf0: "wellFormed s0" using wf eo by (rule wellFormed_ethashOnly)
  have nf0: "\<not> staleHeadBlock s0" using nf by (simp add: f0)
  from acc obtain currentTd td where
    cur: "getCurrentTd False s0 = Some currentTd"
    and td0: "getBlockTd False (header (itemBlock ?it)) s0 = Some td"
    by (rule putAccepted_success) blast
  from td0 ib have td: "getBlockTd False ?hdr s0 = Some td" by simp
  from wf0 have c: "cacheOK s0" and h: "headersOK s0" and t: "tdsOK s0" and hd: "headsOK s0"
    by (simp_all add: wellFormed_def)
  from wf_getBlockTd_number[OF c h t td] have ng: "\<not> isGenesis b" by (simp add: isGenesis_def)
  with ib have ng': "\<not> isGenesis (itemBlock ?it)" by simp
  let ?b = "blockOps ?it False td"
  note pp = put_preserves[OF wf0 acc]
  note pw = put_written[OF wf0 acc ng' cur td0]
  from pp(1) have c': "cacheOK s'" and h': "headersOK s'" and hd': "headsOK s'"
    by (simp_all add: wellFormed_def)
  have tdw: "db s' (TdKey ?n ?hash) = Some (VTd td)" using pw(3) ib by simp

  txt \<open>The total difficulty of the block is read as before.\<close>
  from wf_getBlockTd[OF c td] obtain pt where
    pt: "db s0 (TdKey (?n - 1) (parentHash ?hdr)) = Some (VTd pt)" "td = difficulty ?hdr + pt"
    by blast
  have td': "getBlockTd False ?hdr s' = Some td"
    using pp(2)[OF pt(1)] pt(2) by (simp add: getBlockTd_def wf_getTd_Some[OF c'])

  txt \<open>The current total difficulties are not below it.\<close>
  from hd' obtain wh' wb' T' where
    wh': "headHeader s' = Some (HashOf wh')" "stored s' wh'"
      "db s' (TdKey (number wh') (HashOf wh')) = Some (VTd T')"
    and mx': "\<forall>n h t. db s' (TdKey n h) = Some (VTd t) \<longrightarrow> t \<le> T'"
    and wb': "headBlock s' = Some (HashOf wb')" "stored s' wb'"
    unfolding headsOK_def by blast
  from stored_header(1)[OF h' wb'(2)] obtain tb' where
    tb': "db s' (TdKey (number wb') (HashOf wb')) = Some (VTd tb')" by blast
  have g1: "getTd s' (HashOf wh') None = Some T'"
    using wf_getTd_None[OF c' h' wh'(2)] wh'(3) by simp
  have g2: "getTd s' (HashOf wb') None = Some tb'"
    using wf_getTd_None[OF c' h' wb'(2)] tb' by simp
  have cur': "getCurrentTd False s' = Some (T', tb')"
    by (simp add: getCurrentTd_def wh'(1) wb'(1) g1 g2)
  have le1: "\<not> td > T'" using mx' tdw by fastforce
  have top: "tb' = td" if "headBlock s' = Some ?hash"
  proof -
    from that wb'(1) have "wb' = ?hdr" by simp
    with tb' tdw show ?thesis by simp
  qed
  have le2: "\<not> td > tb'"
  proof (cases "td > fst currentTd")
    case True
    from put_win_headBlock[OF wf0 nf0 acc cur td True] top show ?thesis by simp
  next
    case False
    note hb = pw(6)[OF False]
    show ?thesis
    proof (cases "td > snd currentTd")
      case True
      with hb ib top show ?thesis by simp
    next
      case False
      with hb have same: "headBlock s' = headBlock s0" by simp
      from hd obtain wb where wb: "headBlock s0 = Some (HashOf wb)" "stored s0 wb"
        unfolding headsOK_def by blast
      from stored_header(1)[OF h wb(2)] obtain t0 where
        t0: "db s0 (TdKey (number wb) (HashOf wb)) = Some (VTd t0)" by blast
      have "getTd s0 (HashOf wb) None = Some t0"
        using wf_getTd_None[OF c h wb(2)] t0 by simp
      with cur wb(1) have "snd currentTd = t0"
        by (auto simp: getCurrentTd_def split: option.splits)
      moreover from same wb(1) wb'(1) have "wb' = wb" by simp
      moreover note pp(2)[OF t0] tb' False
      ultimately show ?thesis by simp
    qed
  qed

  txt \<open>The checks pass again.\<close>
  have vs: "validate s' = validate s" using pw(5) by (simp add: f0)
  have v1': "verify E b False s' = None"
    using val ng vs by (simp add: verify_def)
  have v2': "verifyPOW E b s' = (None, s')"
    using v2 ib val vs verifyPOW_cases[of E b s] by (auto simp: verifyPOW_def)

  txt \<open>The second put writes what is there.\<close>
  have "\<forall>op \<in> set ?b. opEffect op = cache s' (opKey op)" using pw(1) ib by simp
  then have "foldl applyOp (cache s') ?b = cache s'" by (rule foldl_applyOp_idem)
  then have cb: "cached ?b s' = s'" by (rule cached_id)
  have ah: "acceptHeadBlock ?it td tb' s' = s'" using le2 by (simp add: acceptHeadBlock_def)
  have "\<forall>op \<in> set [?put]. opEffect op = cache s' (opKey op)" using pw(1) ib by simp
  then have "foldl applyOp (cache s') [?put] = cache s'" by (rule foldl_applyOp_idem)
  then have cp: "cached [?put] s' = s'" by (rule cached_id)
  have ri: "rebuildInfo ?it False td (T', tb') s' = Some (None, ?b @ [?put], s')"
    using le1 ng by (simp add: rebuildInfo_def Let_def ib cb ah cp)
  have "\<forall>op \<in> set ((?b @ [?put]) @ saveHeadOps s'). opEffect op = db s' (opKey op)"
    using pw(2) ib by simp
  then have "foldl applyOp (db s') ((?b @ [?put]) @ saveHeadOps s') = db s'"
    by (rule foldl_applyOp_idem)
  then have "dbm_batch ((?b @ [?put]) @ saveHeadOps s') s' = s'" by (rule dbm_batch_id)
  then have bt: "dbm_batch (?b @ ?put # saveHeadOps s') s' = s'" by simp
  have acc': "putAccepted ?it False s' = Some (None, s')"
    by (simp add: putAccepted_def ib cur' td' ri bt)
  from chain pw(4) ib have ch: "commonChainId b = chainId s'" by (simp add: f0)
  show ?thesis
    by (simp add: putBlock_def putBlockOrHeader_def Let_def ib ch v1' v2' acc')
qed

theorem getHead_without_entry_example:
  "map_of (heads chainB1) ''vm'' = None \<and> ''vm'' \<notin> set objectPrototypeNames
   \<and> headHeader chainB1 = Some (HashOf hdrB1) \<and> headBlock chainB1 = Some (HashOf hdrA1)
   \<and> getHead (Some ''vm'') chainB1 = dbm_getBlock chainB1 (TagHash (HashOf hdrA1))
   \<and> dbm_getBlock chainB1 (TagHash (HashOf hdrA1)) = Inr (blockOf hdrA1)
   \<and> getHead (Some ''vm'') chainB1 \<noteq> Inl NoHeadFound"
proof -
  have h: "map_of (heads chainB1) (case Some ''vm'' of None \<Rightarrow> ''vm'' | Some n \<Rightarrow> n) = None"
    by code_simp
  have n: "(case Some ''vm'' of None \<Rightarrow> ''vm'' | Some n \<Rightarrow> n) \<notin> set objectPrototypeNames"
    by code_simp
  have hb: "headBlock chainB1 = Some (HashOf hdrA1)" by code_simp
  have hh: "headHeader chainB1 = Some (HashOf hdrB1)" by code_simp
  have gb: "dbm_getBlock chainB1 (TagHash (HashOf hdrA1)) = Inr (blockOf hdrA1)" by code_simp
  from getHead_without_entry[OF h n] h n hb hh gb show ?thesis by simp
qed

theorem delBlock_non_canonical_witness:
  "getHeader chainB1 (HashOf hdrA1) None = Some hdrA1
   \<and> dbm_numberToHash chainB1 (number hdrA1) = Some (HashOf hdrB1)
   \<and> HashOf hdrB1 \<noteq> HashOf hdrA1
   \<and> delBlock (HashOf hdrA1) chainB1 =
       Some (None,
         chainB1\<lparr>db := (db chainB1)(HeaderKey 1 (HashOf hdrA1) := None,
                          BodyKey 1 (HashOf hdrA1) := None,
                          HashToNumberKey (HashOf hdrA1) := None,
                          TdKey 1 (HashOf hdrA1) := None),
                 cache := (cache chainB1)(HeaderKey 1 (HashOf hdrA1) := None,
                          BodyKey 1 (HashOf hdrA1) := None,
                          HashToNumberKey (HashOf hdrA1) := None,
                          TdKey 1 (HashOf hdrA1) := None)\<rparr>)"
proof -
  have g: "getHeader chainB1 (HashOf hdrA1) None = Some hdrA1" by code_simp
  have n: "dbm_numberToHash chainB1 (number hdrA1) = Some (HashOf hdrB1)" by code_simp
  have d: "HashOf hdrB1 \<noteq> HashOf hdrA1" by code_simp
  have n1: "number hdrA1 = 1" by code_simp
  from n d have c: "dbm_numberToHash chainB1 (number hdrA1) \<noteq> Some (HashOf hdrA1)" by simp
  from delBlock_non_canonical[OF g c] g n d show ?thesis by (simp add: n1)
qed

theorem put_validation_failure_witness:
  "validate chainGv \<and> \<not> ethashVerifyPOW rejectPoW (itemBlock (BlockItem (blockOf hdrA1)))
   \<and> \<not> blockValidate rejectBlock chainGv (itemBlock (BlockItem (blockOf hdrA1)))
   \<and> (\<exists>s1. putBlockOrHeader rejectPoW (BlockItem (blockOf hdrA1)) False chainGv
              = Some (Some InvalidPoW, s1)
          \<and> s1 = ethashLoaded rejectPoW (blockOf hdrA1) chainGv
          \<and> cache s1 = cache chainGv \<and> heads s1 = heads chainGv
          \<and> headHeader s1 = headHeader chainGv \<and> headBlock s1 = headBlock chainGv
          \<and> db s1 (HeaderKey 0 (HashOf hdrG)) = db chainGv (HeaderKey 0 (HashOf hdrG))
          \<and> db s1 HeadHeaderKey = db chainGv HeadHeaderKey)
   \<and> putBlockOrHeader rejectBlock (BlockItem (blockOf hdrA1)) False chainGv
        = Some (Some InvalidBlock, chainGv)"
proof -
  let ?it = "BlockItem (blockOf hdrA1)"
  have v: "validate chainGv" by code_simp
  have p: "\<not> ethashVerifyPOW rejectPoW (itemBlock ?it)" by code_simp
  have r: "\<not> blockValidate rejectBlock chainGv (itemBlock ?it)" by (simp add: rejectBlock_def)
  have c: "commonChainId (itemBlock ?it) = chainId chainGv" by code_simp
  have g: "\<not> isGenesis (itemBlock ?it)" by code_simp
  have ib: "itemBlock ?it = blockOf hdrA1" by (simp add: itemBlock_def)
  have b: "blockValidate rejectPoW chainGv (itemBlock ?it)"
    by (simp add: rejectPoW_def)
  from put_validation_failure[of chainGv False ?it rejectPoW] v p c g b
  obtain s1 where s1: "putBlockOrHeader rejectPoW ?it False chainGv = Some (Some InvalidPoW, s1)"
    "s1 = ethashLoaded rejectPoW (blockOf hdrA1) chainGv"
    "cache s1 = cache chainGv" "heads s1 = heads chainGv" "headHeader s1 = headHeader chainGv"
    "headBlock s1 = headBlock chainGv"
    "\<forall>k. (\<forall>e. k \<noteq> EthashKey e) \<longrightarrow> db s1 k = db chainGv k"
    by (auto simp: ib)
  from s1(7) have k: "db s1 (HeaderKey 0 (HashOf hdrG)) = db chainGv (HeaderKey 0 (HashOf hdrG))"
    "db s1 HeadHeaderKey = db chainGv HeadHeaderKey" by simp_all
  from put_validation_failure[of chainGv False ?it rejectBlock] v r c g
  have "putBlockOrHeader rejectBlock ?it False chainGv = Some (Some InvalidBlock, chainGv)"
    by simp
  with v p r s1(1-6) k show ?thesis by blast
qed

theorem put_total_difficulty_witness:
  "(\<exists>s'. putBlockOrHeader acceptAll (BlockItem (blockOf hdrG)) True (newBlockchain Map.empty 1 False)
            = Some (None, s')
         \<and> db s' (TdKey 0 (HashOf hdrG)) = Some (VTd 1))
   \<and> (\<exists>s'. putBlockOrHeader acceptAll (BlockItem (blockOf hdrA1)) False chainG = Some (None, s')
         \<and> getTd chainG (HashOf hdrG) (Some 0) = Some 1
         \<and> db s' (TdKey 1 (HashOf hdrA1)) = Some (VTd 2))
   \<and> getTd chainG (HashOf hdrB1) (Some 1) = None
   \<and> (\<exists>e s1. putBlockOrHeader acceptAll (BlockItem (blockOf hdrB2)) False chainG = Some (Some e, s1)
          \<and> (s1 = chainG \<or> s1 = ethashLoaded acceptAll (blockOf hdrB2) chainG))"
proof -
  let ?s0 = "newBlockchain Map.empty 1 False"
  have "map_option fst (putBlockOrHeader acceptAll (BlockItem (blockOf hdrG)) True ?s0) = Some None"
    by code_simp
  then obtain s1 where p1: "putBlockOrHeader acceptAll (BlockItem (blockOf hdrG)) True ?s0 = Some (None, s1)"
    by (cases "putBlockOrHeader acceptAll (BlockItem (blockOf hdrG)) True ?s0") auto
  have "map_option fst (putBlockOrHeader acceptAll (BlockItem (blockOf hdrA1)) False chainG) = Some None"
    by code_simp
  then obtain s2 where p2: "putBlockOrHeader acceptAll (BlockItem (blockOf hdrA1)) False chainG = Some (None, s2)"
    by (cases "putBlockOrHeader acceptAll (BlockItem (blockOf hdrA1)) False chainG") auto
  have g: "getTd chainG (HashOf hdrG) (Some 0) = Some 1" by code_simp
  have m: "getTd chainG (HashOf hdrB1) (Some 1) = None" by code_simp
  have f1: "header (itemBlock (BlockItem (blockOf hdrG))) = hdrG"
    "header (itemBlock (BlockItem (blockOf hdrA1))) = hdrA1"
    "header (itemBlock (BlockItem (blockOf hdrB2))) = hdrB2"
    by (simp_all add: itemBlock_def blockOf_def)
  have f2: "number hdrG = 0" "difficulty hdrG = 1" "number hdrA1 = 1" "difficulty hdrA1 = 1"
    "parentHash hdrA1 = HashOf hdrG" "number hdrB2 = 2" "parentHash hdrB2 = HashOf hdrB1"
    by (simp_all add: hdrG_def hdrA1_def hdrB2_def)
  from put_total_difficulty[of acceptAll "BlockItem (blockOf hdrG)" ?s0 s1] p1
  have c1: "db s1 (TdKey 0 (HashOf hdrG)) = Some (VTd 1)" by (simp add: f1 f2)
  from put_total_difficulty[of acceptAll "BlockItem (blockOf hdrA1)" chainG s2] p2 g
  have c2: "db s2 (TdKey 1 (HashOf hdrA1)) = Some (VTd 2)" by (simp add: f1 f2)
  have ib: "itemBlock (BlockItem (blockOf hdrB2)) = blockOf hdrB2" by (simp add: itemBlock_def)
  from put_total_difficulty[of acceptAll "BlockItem (blockOf hdrB2)" chainG chainG] m
  have "\<exists>e s1. putBlockOrHeader acceptAll (BlockItem (blockOf hdrB2)) False chainG = Some (Some e, s1)
          \<and> (s1 = chainG
               \<or> s1 = ethashLoaded acceptAll (itemBlock (BlockItem (blockOf hdrB2))) chainG)"
    by (simp add: f1 f2)
  then have c3: "\<exists>e s1. putBlockOrHeader acceptAll (BlockItem (blockOf hdrB2)) False chainG = Some (Some e, s1)
          \<and> (s1 = chainG \<or> s1 = ethashLoaded acceptAll (blockOf hdrB2) chainG)"
    unfolding ib .
  from p1 c1 p2 g c2 m c3 show ?thesis by blast
qed

theorem put_canonical_decision_witness:
  "(\<exists>s'. putBlockOrHeader acceptAll (BlockItem (blockOf hdrA1)) False chainG = Some (None, s')
         \<and> getCurrentTd False chainG = Some (1, 1)
         \<and> getBlockTd False hdrA1 chainG = Some 2
         \<and> headHeader chainG = Some (HashOf hdrG)
         \<and> headHeader s' = Some (HashOf hdrA1))
   \<and> (\<exists>s'. putBlockOrHeader acceptAll (BlockItem (blockOf hdrD1)) False chainA1 = Some (None, s')
         \<and> getCurrentTd False chainA1 = Some (2, 2)
         \<and> getBlockTd False hdrD1 chainA1 = Some 2
         \<and> headHeader s' = Some (HashOf hdrA1)
         \<and> dbm_numberToHash s' 1 = Some (HashOf hdrA1)
         \<and> HashOf hdrA1 \<noteq> HashOf hdrD1)"
proof -
  have "map_option fst (putBlockOrHeader acceptAll (BlockItem (blockOf hdrA1)) False chainG) = Some None"
    by code_simp
  then obtain s1 where p1: "putBlockOrHeader acceptAll (BlockItem (blockOf hdrA1)) False chainG = Some (None, s1)"
    by (cases "putBlockOrHeader acceptAll (BlockItem (blockOf hdrA1)) False chainG") auto
  have "map_option fst (putBlockOrHeader acceptAll (BlockItem (blockOf hdrD1)) False chainA1) = Some None"
    by code_simp
  then obtain s2 where p2: "putBlockOrHeader acceptAll (BlockItem (blockOf hdrD1)) False chainA1 = Some (None, s2)"
    by (cases "putBlockOrHeader acceptAll (BlockItem (blockOf hdrD1)) False chainA1") auto
  have f1: "header (itemBlock (BlockItem (blockOf hdrA1))) = hdrA1"
    "header (itemBlock (BlockItem (blockOf hdrD1))) = hdrD1"
    "\<not> isGenesis (itemBlock (BlockItem (blockOf hdrA1)))"
    "\<not> isGenesis (itemBlock (BlockItem (blockOf hdrD1)))"
    by (simp_all add: itemBlock_def blockOf_def isGenesis_def hdrA1_def hdrD1_def)
  have c1: "getCurrentTd False chainG = Some (1, 1)" by code_simp
  have t1: "getBlockTd False hdrA1 chainG = Some 2" by code_simp
  have c2: "getCurrentTd False chainA1 = Some (2, 2)" by code_simp
  have t2: "getBlockTd False hdrD1 chainA1 = Some 2" by code_simp
  have h0: "headHeader chainG = Some (HashOf hdrG)" by code_simp
  have h1: "headHeader chainA1 = Some (HashOf hdrA1)" by code_simp
  have n1: "dbm_numberToHash chainA1 1 = Some (HashOf hdrA1)" by code_simp
  have d: "HashOf hdrA1 \<noteq> HashOf hdrD1" by code_simp
  from put_canonical_decision[OF p1, of "(1, 1)" 2] c1 t1
  have r1: "headHeader s1 = Some (HashOf hdrA1)" by (simp add: f1)
  from put_canonical_decision[OF p2, of "(2, 2)" 2] c2 t2
  have r2: "headHeader s2 = headHeader chainA1" "dbm_numberToHash s2 1 = dbm_numberToHash chainA1 1"
    by (simp_all add: f1)
  from p1 c1 t1 h0 r1 p2 c2 t2 r2 h1 n1 d show ?thesis by auto
qed

theorem rebuildCanonical_stop_resets_to_walked_hash_witness:
  "number hdrA1 \<noteq> 0 \<and> dbm_numberToHash chainC2walk (number hdrA1) = Some (HashOf hdrA1)
   \<and> staleHeads chainC2walk = Some [''vm''] \<and> staleHeadBlock chainC2walk
   \<and> (\<exists>s'. rebuildCanonical hdrA1 [] chainC2walk = Some (None, [], s')
          \<and> map_of (heads s') ''vm'' = Some (HashOf hdrA1)
          \<and> headBlock s' = Some (HashOf hdrA1)
          \<and> staleHeads s' = None \<and> \<not> staleHeadBlock s')"
proof -
  have a: "number hdrA1 \<noteq> 0" by code_simp
  have b: "dbm_numberToHash chainC2walk (number hdrA1) = Some (HashOf hdrA1)" by code_simp
  have c: "staleHeads chainC2walk = Some [''vm'']" by code_simp
  have d: "staleHeadBlock chainC2walk" by code_simp
  from rebuildCanonical_stop_resets_to_walked_hash[OF a b, of "[]"] a b c d
  show ?thesis by auto
qed

text \<open>
Claim C1. The claim: the reorg flag handed to \<^verbatim>\<open>onBlock\<close> is true exactly when a block was
  yielded before and its hash differs from the parent hash of the current block. The code
  computes \<^verbatim>\<open>lastBlock.hash().equals(block.header.parentHash)\<close>, without the negation: on
  the linear chain genesis, A1, A2 (A2 is the child of A1, nothing was reorganised) the
  iterator started at genesis calls \<^verbatim>\<open>onBlock\<close> on A1 with the flag false and on A2
  with the flag true.
\<close>

theorem iterator_reorg_flag_linear_chain:
  "map_option (\<lambda>(e, calls, s). (e, calls)) (iterator ''vm'' (\<lambda>b r. None) chainA2)
     = Some (None, [(blockOf hdrA1, False), (blockOf hdrA2, True)])
   \<and> parentHash (header (blockOf hdrA2)) = HashOf (header (blockOf hdrA1))"
  by code_simp

text \<open>
Claim C3 as stated fails. On the chain genesis, A1, A2 with the iterator head
  \<^verbatim>\<open>'vm'\<close> and \<^verbatim>\<open>_headBlock\<close> at A2, the header C2 (a child of A1 with a higher total
  difficulty) is put. The walk flags both at number 2 and stops at A1; both end at the
  hash of A1, not at the hash of C2, the accepted top header.
\<close>

theorem rebuildCanonical_stale_heads_counterexample:
  "map_of (heads chainA2vm) ''vm'' = Some (HashOf hdrA2)
   \<and> headBlock chainA2vm = Some (HashOf hdrA2)
   \<and> dbm_numberToHash chainA2vm 2 = Some (HashOf hdrA2)
   \<and> map_option (\<lambda>(e, s). (e, map_of (heads s) ''vm'', headBlock s, headHeader s))
        (putHeader acceptAll hdrC2 1 chainA2vm)
       = Some (None, Some (HashOf hdrA1), Some (HashOf hdrA1), Some (HashOf hdrC2))
   \<and> HashOf hdrA1 \<noteq> HashOf hdrC2"
  by code_simp

text \<open>
Claim C8. The claim: putting the same block twice leaves the state that putting it once
  leaves. The code: on the chain genesis, A1 (a block), B1 (a header with a higher total
  difficulty, put by \<^verbatim>\<open>putHeader\<close>), the walk of B1 flags \<^verbatim>\<open>_headBlock\<close> (still A1)
  stale and ends in the branch for number 0, which returns without the reset of the
  stopping branch: the flag stays set. Putting the block B2 (a child of B1) then runs into
  the flag at B1 and leaves \<^verbatim>\<open>_headBlock\<close> at B1; putting B2 once more moves
  \<^verbatim>\<open>_headBlock\<close> to B2.
\<close>

theorem reput_after_header_reorg_moves_headBlock:
  "map_option (\<lambda>(e, s). (e, headBlock s)) (putBlock acceptAll (blockOf hdrB2) False chainB1)
     = Some (None, Some (HashOf hdrB1))
   \<and> map_option (\<lambda>(e, s). (e, headBlock s)) (putBlock acceptAll (blockOf hdrB2) False chainB2)
     = Some (None, Some (HashOf hdrB2))
   \<and> HashOf hdrB1 \<noteq> HashOf hdrB2"
  by code_simp


text \<open>
Claim C10. The claim: \<^verbatim>\<open>getHead(name)\<close> for a name with no entry among the iterator
  heads returns the block read at \<^verbatim>\<open>_headBlock\<close>. The code reads \<^verbatim>\<open>this._heads[name]\<close>
  on a plain object: on the chain genesis, A1, where no iterator has run, the names
  \<^verbatim>\<open>'constructor'\<close> and \<^verbatim>\<open>'toString'\<close> have no entry, \<^verbatim>\<open>_headBlock\<close> is A1 and the block
  A1 can be read, but \<^verbatim>\<open>getHead\<close> hands the inherited value to \<^verbatim>\<open>getBlock\<close> and fails
  with 'Unknown blockTag type'.
\<close>

theorem getHead_inherited_name:
  "map_of (heads chainA1) ''constructor'' = None
   \<and> headBlock chainA1 = Some (HashOf hdrA1)
   \<and> dbm_getBlock chainA1 (TagHash (HashOf hdrA1)) = Inr (blockOf hdrA1)
   \<and> getHead (Some ''constructor'') chainA1 = Inl UnknownBlockTag
   \<and> getHead (Some ''toString'') chainA1 = Inl UnknownBlockTag"
  by code_simp

text \<open>
Claim C6 as stated fails. On the store that \<^verbatim>\<open>init\<close> leaves with \<^verbatim>\<open>validate\<close> set
  (Ethash skips the genesis block, the store holds no Ethash entry), the block A1 is put
  and its proof of work is rejected: the put returns the error, and the store holds the
  cache of epoch 0 that Ethash has put there before answering.
\<close>

theorem put_rejected_pow_writes_store:
  "validate chainGv \<and> \<not> ethashVerifyPOW rejectPoW (blockOf hdrA1)
   \<and> db chainGv (EthashKey 0) = None
   \<and> map_option (\<lambda>(e, s). (e, db s (EthashKey 0)))
        (putBlock rejectPoW (blockOf hdrA1) False chainGv)
       = Some (Some InvalidPoW, Some (VEthash 7))"
  by code_simp

lemma stateOf_success: "map_option fst r = Some None \<Longrightarrow> r = Some (None, stateOf r)"
  by (cases r) (auto simp: stateOf_def)

lemma chainG_init:
  "init acceptAll (blockOf hdrG) (newBlockchain Map.empty 1 False) = Some (None, chainG)"
  unfolding chainG_def by (rule stateOf_success) code_simp

lemma chainA1_put:
  "putBlockOrHeader acceptAll (BlockItem (blockOf hdrA1)) False chainG = Some (None, chainA1)"
  unfolding chainA1_def putBlock_def by (rule stateOf_success) code_simp



theorem reput_without_stale_flag_example:
  "wellFormed chainA1 \<and> \<not> staleHeadBlock chainA1
   \<and> (\<exists>s'. putBlock acceptAll (blockOf hdrB1) False chainA1 = Some (None, s')
          \<and> headHeader s' = Some (HashOf hdrB1) \<and> headBlock s' = Some (HashOf hdrB1)
          \<and> putBlock acceptAll (blockOf hdrB1) False s' = Some (None, s'))"
proof -
  have g: "isGenesis (blockOf hdrG)" by code_simp
  have wf: "wellFormed chainA1"
    using putBlockOrHeader_wellFormed[OF init_wellFormed[OF g chainG_init] chainA1_put] .
  have nf: "\<not> staleHeadBlock chainA1" by code_simp
  have "map_option fst (putBlock acceptAll (blockOf hdrB1) False chainA1) = Some None"
    by code_simp
  then obtain s' where p: "putBlock acceptAll (blockOf hdrB1) False chainA1 = Some (None, s')"
    by (cases "putBlock acceptAll (blockOf hdrB1) False chainA1") auto
  have "map_option (\<lambda>(e, s). (headHeader s, headBlock s))
          (putBlock acceptAll (blockOf hdrB1) False chainA1)
        = Some (Some (HashOf hdrB1), Some (HashOf hdrB1))"
    by code_simp
  with p have hs: "headHeader s' = Some (HashOf hdrB1)" "headBlock s' = Some (HashOf hdrB1)"
    by simp_all
  have nv: "\<not> validate chainA1" by code_simp
  then have v: "validate chainA1 \<longrightarrow> blockValidate acceptAll s' (blockOf hdrB1)
                  \<and> ethashLoaded acceptAll (blockOf hdrB1) s' = s'"
    by simp
  from reput_without_stale_flag[OF wf nf p v] wf nf p hs show ?thesis by blast
qed

end
